theory Spec2Isabelle
  imports Main "HOL-Library.AList"
begin

section \<open>Values, callbacks and the observable trace\<close>

text \<open>
  The program is one JavaScript file, \<^verbatim>\<open>src/event-system.js\<close>, with two
  module-pattern singletons that matter here: \<^verbatim>\<open>EventBus\<close> (lines 2-83) and
  \<^verbatim>\<open>CacheManager\<close> (lines 121-231). Their private closure state
  (\<^verbatim>\<open>listeners\<close>, \<^verbatim>\<open>cache\<close>, \<^verbatim>\<open>stats\<close>) and the part of the platform
  they use (\<^verbatim>\<open>Date.now\<close>, \<^verbatim>\<open>setTimeout\<close>, \<^verbatim>\<open>clearTimeout\<close>) are the fields of
  one record, passed explicitly.

  A subscriber supplied by a caller is a function object: an identity and a body. The
  bodies considered are the ones the claims speak about: a body that returns, a
  body that throws, and a body that unsubscribes its own function from an event with
  \<^verbatim>\<open>off\<close>. Every body first records that it ran (\<open>Called\<close> in the trace). Bodies that
  call back into \<^verbatim>\<open>on\<close>, \<^verbatim>\<open>emit\<close>, \<^verbatim>\<open>clear\<close> or the cache are outside the model.
\<close>

datatype behaviour = Returns | Throws | Unsubscribes string

datatype ufun = UFun nat behaviour

text \<open>
  A registered callback is either a caller's function or the anonymous wrapper that
  \<^verbatim>\<open>once\<close> creates (lines 63-66). The wrapper is a fresh function object at every
  call of \<^verbatim>\<open>once\<close>: it carries a serial number, the event name and the wrapped
  function that its closure captured.
\<close>

datatype callback = Plain ufun | OnceWrapper nat string ufun

text \<open>
  JavaScript values as far as the code inspects them (\<^verbatim>\<open>typeof\<close>, comparison with
  0, \<^verbatim>\<open>trim\<close>). Numbers are integers: a duration in milliseconds and a clock
  reading; NaN, infinities and fractions are not modelled.
\<close>

datatype jsval =
    JUndefined | JNull | JBool bool | JNum int | JStr string | JFun ufun | JObj nat

text \<open>
  The code throws \<^verbatim>\<open>new Error(...)\<close> on a bad argument (lines 9, 12, 44, 145); reading
  a property of \<^verbatim>\<open>undefined\<close> raises the platform's \<^verbatim>\<open>TypeError\<close>; a subscriber body
  may throw its own error.
\<close>

datatype error = InvalidArgument | TypeError | UserThrown

datatype event =
    Emitted string "jsval list"
  | Delivered string callback "jsval list"
  | Called ufun "jsval list"
  | LoggedError string

record entry =
  valor :: jsval
  expiracion :: int
  timeoutId :: "nat option"

text \<open>
  A pending timer of the platform (Node.js): the key captured by the arrow function of
  lines 160-163 and the earliest clock reading at which the event loop may run it.
\<close>

record timer =
  t_clave :: string
  t_due :: int

record world =
  listeners :: "(string \<times> callback option list) list"
  next_fn :: nat
  trace :: "event list"
  cache :: "(string \<times> entry) list"
  hits :: nat
  misses :: nat
  timers :: "(nat \<times> timer) list"
  next_timer :: nat
  now :: nat

definition init :: world where
  "init = \<lparr> listeners = [], next_fn = 0, trace = [], cache = [], hits = 0, misses = 0,
            timers = [], next_timer = 1, now = 0 \<rparr>"

section \<open>The platform: Set, String.trim, the clock and timers\<close>

text \<open>
  A JavaScript \<^verbatim>\<open>Set\<close> keeps insertion order and holds a reference once. As in
  the language definition, its data is a list in which a deleted element leaves an
  empty slot (\<open>None\<close>), so that an iteration in progress keeps its position.
\<close>

definition set_add :: "callback \<Rightarrow> callback option list \<Rightarrow> callback option list" where
  "set_add cb cbs = (if Some cb \<in> set cbs then cbs else cbs @ [Some cb])"

definition set_delete :: "callback \<Rightarrow> callback option list \<Rightarrow> callback option list" where
  "set_delete cb cbs = map (\<lambda>x. if x = Some cb then None else x) cbs"

definition live :: "callback option list \<Rightarrow> callback list" where
  "live cbs = List.map_filter id cbs"

definition set_size :: "callback option list \<Rightarrow> nat" where
  "set_size cbs = length (live cbs)"

text \<open>White space removed by \<^verbatim>\<open>trim\<close>, among the code units below 256.\<close>

definition is_ws :: "char \<Rightarrow> bool" where
  "is_ws c = (of_char c \<in> {9, 10, 11, 12, 13, 32, 160 :: nat})"

definition trim :: "string \<Rightarrow> string" where
  "trim s = rev (dropWhile is_ws (rev (dropWhile is_ws s)))"

definition date_now :: "world \<Rightarrow> int" where
  "date_now s = int (now s)"

text \<open>
  \<^verbatim>\<open>setTimeout(callback, after)\<close>. The platform keeps the delay in 32 bits: a delay
  that is not between 1 and 2147483647 milliseconds is replaced by 1. The callback
  here is always the arrow function of lines 160-163, given by the key it captured.
\<close>

definition TIMEOUT_MAX :: int where
  "TIMEOUT_MAX = 2147483647"

definition timer_delay :: "int \<Rightarrow> int" where
  "timer_delay after = (if 1 \<le> after \<and> after \<le> TIMEOUT_MAX then after else 1)"

definition setTimeout :: "string \<Rightarrow> int \<Rightarrow> world \<Rightarrow> nat \<times> world" where
  "setTimeout clave after s =
     (next_timer s,
      s\<lparr> timers := AList.update (next_timer s)
                    \<lparr> t_clave = clave, t_due = date_now s + timer_delay after \<rparr> (timers s),
         next_timer := Suc (next_timer s) \<rparr>)"

definition clearTimeout :: "nat \<Rightarrow> world \<Rightarrow> world" where
  "clearTimeout tid s = s\<lparr> timers := AList.delete tid (timers s) \<rparr>"

text \<open>Time passes between operations only; an operation reads one clock value.\<close>

definition tick :: "nat \<Rightarrow> world \<Rightarrow> world" where
  "tick d s = s\<lparr> now := now s + d \<rparr>"

text \<open>
  The event loop runs a pending timer once, not before its due time. The body is
  the arrow function of lines 160-163: \<^verbatim>\<open>cache.delete(clave)\<close>, with no check.
\<close>

definition timer_fire :: "nat \<Rightarrow> world \<Rightarrow> world" where
  "timer_fire tid s =
     (case map_of (timers s) tid of
        None \<Rightarrow> s
      | Some t \<Rightarrow>
          if t_due t \<le> date_now s
          then s\<lparr> timers := AList.delete tid (timers s),
                  cache := AList.delete (t_clave t) (cache s) \<rparr>
          else s)"

section \<open>EventBus\<close>

definition validarTipo :: "jsval \<Rightarrow> jsval \<Rightarrow> error option" where
  "validarTipo evento callback =
     (case evento of
        JStr e \<Rightarrow>
          if length (trim e) = 0 then Some InvalidArgument
          else (case callback of JFun f \<Rightarrow> None | _ \<Rightarrow> Some InvalidArgument)
      | _ \<Rightarrow> Some InvalidArgument)"

text \<open>
  The closure returned by \<^verbatim>\<open>on\<close> (lines 29-31) captures the event name and the
  callback. It reads \<^verbatim>\<open>listeners.get(evento)\<close> with no test: when the name has no
  entry the read of \<^verbatim>\<open>.delete\<close> on \<^verbatim>\<open>undefined\<close> raises.
\<close>

datatype remover = Remover string callback

fun run_remover :: "remover \<Rightarrow> world \<Rightarrow> error + world" where
  "run_remover (Remover evento callback) s =
     (case map_of (listeners s) evento of
        None \<Rightarrow> Inl TypeError
      | Some cbs \<Rightarrow>
          Inr (s\<lparr> listeners := AList.update evento (set_delete callback cbs) (listeners s) \<rparr>))"

text \<open>The body of \<^verbatim>\<open>on\<close> after validation (lines 22-31).\<close>

definition subscribe :: "string \<Rightarrow> callback \<Rightarrow> world \<Rightarrow> remover \<times> world" where
  "subscribe evento callback s =
     (let ls = (if map_of (listeners s) evento = None
                then AList.update evento [] (listeners s) else listeners s);
          cbs = (case map_of ls evento of None \<Rightarrow> [] | Some c \<Rightarrow> c)
      in (Remover evento callback,
          s\<lparr> listeners := AList.update evento (set_add callback cbs) ls \<rparr>))"

definition on :: "jsval \<Rightarrow> jsval \<Rightarrow> world \<Rightarrow> error + (remover \<times> world)" where
  "on evento callback s =
     (case validarTipo evento callback of
        Some err \<Rightarrow> Inl err
      | None \<Rightarrow>
          (case (evento, callback) of
             (JStr e, JFun f) \<Rightarrow> Inr (subscribe e (Plain f) s)
           | _ \<Rightarrow> Inl InvalidArgument))"

definition off :: "jsval \<Rightarrow> jsval \<Rightarrow> world \<Rightarrow> world" where
  "off evento callback s =
     (case evento of
        JStr e \<Rightarrow>
          (case map_of (listeners s) e of
             None \<Rightarrow> s
           | Some cbs \<Rightarrow>
               (case callback of
                  JFun f \<Rightarrow>
                    s\<lparr> listeners := AList.update e (set_delete (Plain f) cbs) (listeners s) \<rparr>
                | _ \<Rightarrow> s))
      | _ \<Rightarrow> s)"

text \<open>
  Running a function object. A caller's function records the call and then behaves
  as its body says. The wrapper of \<^verbatim>\<open>once\<close> calls the wrapped function and, only
  if that returned, its own remover (lines 64-65).
\<close>

definition call_ufun :: "ufun \<Rightarrow> jsval list \<Rightarrow> world \<Rightarrow> error option \<times> world" where
  "call_ufun f datos s =
     (let s1 = s\<lparr> trace := trace s @ [Called f datos] \<rparr>
      in case f of
           UFun n Returns \<Rightarrow> (None, s1)
         | UFun n Throws \<Rightarrow> (Some UserThrown, s1)
         | UFun n (Unsubscribes e) \<Rightarrow> (None, off (JStr e) (JFun f) s1))"

fun invoke :: "callback \<Rightarrow> jsval list \<Rightarrow> world \<Rightarrow> error option \<times> world" where
  "invoke (Plain f) datos s = call_ufun f datos s"
| "invoke (OnceWrapper i evento f) datos s =
     (case call_ufun f datos s of
        (Some err, s1) \<Rightarrow> (Some err, s1)
      | (None, s1) \<Rightarrow>
          (case run_remover (Remover evento (OnceWrapper i evento f)) s1 of
             Inl err \<Rightarrow> (Some err, s1)
           | Inr s2 \<Rightarrow> (None, s2)))"

text \<open>
  The arrow function given to \<^verbatim>\<open>forEach\<close> (lines 49-55): the call inside
  \<^verbatim>\<open>try\<close>, and \<^verbatim>\<open>console.error\<close> in \<^verbatim>\<open>catch\<close>.
\<close>

definition dispatch :: "string \<Rightarrow> callback \<Rightarrow> jsval list \<Rightarrow> world \<Rightarrow> world" where
  "dispatch evento cb datos s =
     (case invoke cb datos (s\<lparr> trace := trace s @ [Delivered evento cb datos] \<rparr>) of
        (None, s1) \<Rightarrow> s1
      | (Some err, s1) \<Rightarrow> s1\<lparr> trace := trace s1 @ [LoggedError evento] \<rparr>)"

definition slots :: "world \<Rightarrow> string \<Rightarrow> nat" where
  "slots s evento = (case map_of (listeners s) evento of None \<Rightarrow> 0 | Some cbs \<Rightarrow> length cbs)"

text \<open>
  \<^verbatim>\<open>callbacks.forEach\<close> (line 49) walks the Set's data by position and reads the
  Set again at every step, so a slot emptied by a callback that already ran, or that has
  not run yet, is seen as it is at that moment. No body of the model replaces the
  Set object of an event, so the object held in \<^verbatim>\<open>callbacks\<close> is the one found under
  the event name.
\<close>

function forEach_from :: "string \<Rightarrow> jsval list \<Rightarrow> nat \<Rightarrow> world \<Rightarrow> world" where
  "forEach_from evento datos i s =
     (case map_of (listeners s) evento of
        None \<Rightarrow> s
      | Some cbs \<Rightarrow>
          if i < length cbs
          then (case cbs ! i of
                  None \<Rightarrow> forEach_from evento datos (Suc i) s
                | Some cb \<Rightarrow> forEach_from evento datos (Suc i) (dispatch evento cb datos s))
          else s)"
  by pat_completeness auto
termination
proof (relation "measure (\<lambda>(evento, datos, i, s). slots s evento - i)")
  have len_del: "\<And>cb cbs. length (set_delete cb cbs) = length cbs"
    by (simp add: set_delete_def)
  have tr: "\<And>s t ev. slots (s\<lparr>trace := t\<rparr>) ev = slots s ev"
    by (simp add: slots_def)
  have offs: "\<And>a b s ev. slots (off a b s) ev = slots s ev"
    by (auto simp: off_def slots_def update_conv' len_del split: jsval.splits option.splits)
  have call: "\<And>f datos s ev. slots (snd (call_ufun f datos s)) ev = slots s ev"
  proof -
    fix f datos s ev
    obtain n b where f: "f = UFun n b" by (cases f)
    show "slots (snd (call_ufun f datos s)) ev = slots s ev"
      unfolding f by (cases b) (simp_all add: call_ufun_def Let_def offs tr)
  qed
  have rem: "\<And>r s s' ev. run_remover r s = Inr s' \<Longrightarrow> slots s' ev = slots s ev"
  proof -
    fix r s s' ev
    assume a: "run_remover r s = Inr s'"
    obtain e c where r: "r = Remover e c" by (cases r)
    from a show "slots s' ev = slots s ev"
      unfolding r by (auto simp: slots_def update_conv' len_del split: option.splits if_splits)
  qed
  have inv: "\<And>cb datos s ev. slots (snd (invoke cb datos s)) ev = slots s ev"
  proof -
    fix cb datos s ev
    show "slots (snd (invoke cb datos s)) ev = slots s ev"
    proof (cases cb)
      case (Plain f)
      then show ?thesis by (simp add: call)
    next
      case (OnceWrapper i e f)
      obtain r s1 where c: "call_ufun f datos s = (r, s1)" by (cases "call_ufun f datos s")
      have s1: "slots s1 ev = slots s ev" using call[of f datos s ev] c by simp
      show ?thesis
        using OnceWrapper c s1 rem[of "Remover e (OnceWrapper i e f)" s1 _ ev]
        by (auto simp del: run_remover.simps split: option.splits sum.splits)
    qed
  qed
  have disp: "\<And>e cb datos s ev. slots (dispatch e cb datos s) ev = slots s ev"
  proof -
    fix e cb datos s ev
    obtain r s1 where i: "invoke cb datos (s\<lparr>trace := trace s @ [Delivered e cb datos]\<rparr>) = (r, s1)"
      by (cases "invoke cb datos (s\<lparr>trace := trace s @ [Delivered e cb datos]\<rparr>)")
    have "slots s1 ev = slots s ev"
      using inv[of cb datos "s\<lparr>trace := trace s @ [Delivered e cb datos]\<rparr>" ev] i
      by (simp add: tr)
    then show "slots (dispatch e cb datos s) ev = slots s ev"
      using i by (cases r) (simp_all add: dispatch_def tr)
  qed
  show "wf (measure (\<lambda>(evento, datos, i, s). slots s evento - i))" by simp
  show "\<And>evento datos i s x2.
       map_of (listeners s) evento = Some x2 \<Longrightarrow> i < length x2 \<Longrightarrow> x2 ! i = None \<Longrightarrow>
       ((evento, datos, Suc i, s), evento, datos, i, s)
       \<in> measure (\<lambda>(evento, datos, i, s). slots s evento - i)"
    by (simp add: slots_def)
  show "\<And>evento datos i s x2 x2a.
       map_of (listeners s) evento = Some x2 \<Longrightarrow> i < length x2 \<Longrightarrow> x2 ! i = Some x2a \<Longrightarrow>
       ((evento, datos, Suc i, dispatch evento x2a datos s), evento, datos, i, s)
       \<in> measure (\<lambda>(evento, datos, i, s). slots s evento - i)"
    by (simp add: disp) (simp add: slots_def)
qed

definition emit :: "jsval \<Rightarrow> jsval list \<Rightarrow> world \<Rightarrow> error + world" where
  "emit evento datos s =
     (case evento of
        JStr e \<Rightarrow>
          (let s1 = s\<lparr> trace := trace s @ [Emitted e datos] \<rparr>
           in case map_of (listeners s1) e of
                None \<Rightarrow> Inr s1
              | Some cbs \<Rightarrow> Inr (forEach_from e datos 0 s1))
      | _ \<Rightarrow> Inl InvalidArgument)"

text \<open>
  \<^verbatim>\<open>once\<close> validates, creates the wrapper and registers it through \<^verbatim>\<open>this.on\<close>,
  whose own validation then passes (same name, a function). It returns nothing.
\<close>

definition once :: "jsval \<Rightarrow> jsval \<Rightarrow> world \<Rightarrow> error + world" where
  "once evento callback s =
     (case validarTipo evento callback of
        Some err \<Rightarrow> Inl err
      | None \<Rightarrow>
          (case (evento, callback) of
             (JStr e, JFun f) \<Rightarrow>
               Inr (snd (subscribe e (OnceWrapper (next_fn s) e f)
                          (s\<lparr> next_fn := Suc (next_fn s) \<rparr>)))
           | _ \<Rightarrow> Inl InvalidArgument))"

definition bus_debug :: "world \<Rightarrow> (string \<times> nat) list" where
  "bus_debug s = map (\<lambda>(evento, cbs). (evento, set_size cbs)) (listeners s)"

definition bus_clear :: "world \<Rightarrow> world" where
  "bus_clear s = s\<lparr> listeners := [] \<rparr>"

section \<open>CacheManager\<close>

text \<open>
  \<^verbatim>\<open>cache\<close> is a Map whose keys are always strings, since \<^verbatim>\<open>set\<close> is the only
  writer and it rejects any other key; a lookup with a value that is not a string
  finds nothing. A timer handle is an object, so \<^verbatim>\<open>if (entrada.timeoutId)\<close> is the test
  against \<^verbatim>\<open>null\<close>. The \<^verbatim>\<open>console.log\<close> lines are left out.
\<close>

definition limpiarEntrada :: "string \<Rightarrow> world \<Rightarrow> world" where
  "limpiarEntrada clave s =
     (case map_of (cache s) clave of
        None \<Rightarrow> s
      | Some entrada \<Rightarrow>
          (let s1 = (case timeoutId entrada of
                       None \<Rightarrow> s
                     | Some tid \<Rightarrow> clearTimeout tid s)
           in s1\<lparr> cache := AList.delete clave (cache s1) \<rparr>))"

text \<open>Lines 147-149: a \<^verbatim>\<open>ttl\<close> that is not a number, or is negative, becomes 0.\<close>

definition normal_ttl :: "jsval \<Rightarrow> int" where
  "normal_ttl ttl0 = (case ttl0 of JNum n \<Rightarrow> if n < 0 then 0 else n | _ \<Rightarrow> 0)"

definition cache_set :: "jsval \<Rightarrow> jsval \<Rightarrow> jsval \<Rightarrow> world \<Rightarrow> error + world" where
  "cache_set clave v ttl0 s =
     (case clave of
        JStr k \<Rightarrow>
          if length (trim k) = 0 then Inl InvalidArgument
          else
            (let ttl = normal_ttl ttl0;
                 s1 = limpiarEntrada k s
             in if ttl > 0
                then
                  (let ex = date_now s1 + ttl;
                       (tid, s2) = setTimeout k ttl s1
                   in Inr (s2\<lparr> cache := AList.update k
                                \<lparr> valor = v, expiracion = ex, timeoutId = Some tid \<rparr> (cache s2) \<rparr>))
                else
                  Inr (s1\<lparr> cache := AList.update k
                              \<lparr> valor = v, expiracion = 0, timeoutId = None \<rparr> (cache s1) \<rparr>))
      | _ \<Rightarrow> Inl InvalidArgument)"

definition cache_lookup :: "world \<Rightarrow> jsval \<Rightarrow> entry option" where
  "cache_lookup s clave = (case clave of JStr k \<Rightarrow> map_of (cache s) k | _ \<Rightarrow> None)"

definition report_miss :: "jsval \<Rightarrow> world \<Rightarrow> error + (jsval \<times> world)" where
  "report_miss clave s =
     (case emit (JStr ''cache:miss'') [clave] (s\<lparr> misses := misses s + 1 \<rparr>) of
        Inl err \<Rightarrow> Inl err
      | Inr s1 \<Rightarrow> Inr (JNull, s1))"

definition cache_get :: "jsval \<Rightarrow> world \<Rightarrow> error + (jsval \<times> world)" where
  "cache_get clave s =
     (case cache_lookup s clave of
        None \<Rightarrow> report_miss clave s
      | Some entrada \<Rightarrow>
          if expiracion entrada > 0 \<and> expiracion entrada < date_now s
          then report_miss clave
                 (case clave of JStr k \<Rightarrow> limpiarEntrada k s | _ \<Rightarrow> s)
          else
            (case emit (JStr ''cache:hit'') [clave, valor entrada]
                    (s\<lparr> hits := hits s + 1 \<rparr>) of
               Inl err \<Rightarrow> Inl err
             | Inr s1 \<Rightarrow> Inr (valor entrada, s1)))"

definition cache_del :: "jsval \<Rightarrow> world \<Rightarrow> bool \<times> world" where
  "cache_del clave s =
     (case clave of
        JStr k \<Rightarrow>
          if map_of (cache s) k \<noteq> None then (True, limpiarEntrada k s) else (False, s)
      | _ \<Rightarrow> (False, s))"

record cache_info =
  info_size :: nat
  info_hits :: nat
  info_misses :: nat
  info_keys :: "string list"

definition cache_debug :: "world \<Rightarrow> cache_info" where
  "cache_debug s =
     \<lparr> info_size = length (cache s), info_hits = hits s, info_misses = misses s,
       info_keys = map fst (cache s) \<rparr>"

definition cache_clear :: "world \<Rightarrow> world" where
  "cache_clear s =
     (let s1 = fold limpiarEntrada (map fst (cache s)) s
      in s1\<lparr> cache := [], hits := 0, misses := 0 \<rparr>)"

section \<open>Executions\<close>

text \<open>
  One turn of the event loop: a call of the public interface, a timer that runs, or
  time that passes. An exception thrown by a call ends that call and nothing else.
\<close>

datatype op =
    CacheSet jsval jsval jsval | CacheGet jsval | CacheDel jsval | CacheClear
  | TimerFire nat | Tick nat
  | BusOn jsval jsval | BusOnce jsval jsval | BusOff jsval jsval
  | BusEmit jsval "jsval list" | BusClear | RunRemover remover

fun step :: "op \<Rightarrow> world \<Rightarrow> world" where
  "step (CacheSet k v ttl) s = (case cache_set k v ttl s of Inl err \<Rightarrow> s | Inr s1 \<Rightarrow> s1)"
| "step (CacheGet k) s = (case cache_get k s of Inl err \<Rightarrow> s | Inr (v, s1) \<Rightarrow> s1)"
| "step (CacheDel k) s = snd (cache_del k s)"
| "step CacheClear s = cache_clear s"
| "step (TimerFire tid) s = timer_fire tid s"
| "step (Tick d) s = tick d s"
| "step (BusOn e cb) s = (case on e cb s of Inl err \<Rightarrow> s | Inr (r, s1) \<Rightarrow> s1)"
| "step (BusOnce e cb) s = (case once e cb s of Inl err \<Rightarrow> s | Inr s1 \<Rightarrow> s1)"
| "step (BusOff e cb) s = off e cb s"
| "step (BusEmit e datos) s = (case emit e datos s of Inl err \<Rightarrow> s | Inr s1 \<Rightarrow> s1)"
| "step BusClear s = bus_clear s"
| "step (RunRemover r) s = (case run_remover r s of Inl err \<Rightarrow> s | Inr s1 \<Rightarrow> s1)"

definition run :: "op list \<Rightarrow> world \<Rightarrow> world" where
  "run ops s = fold step ops s"

text \<open>The operations that write the entry of key \<open>k\<close> on the caller's behalf.\<close>

fun writes_key :: "string \<Rightarrow> op \<Rightarrow> bool" where
  "writes_key k (CacheSet k' v ttl) = (k' = JStr k)"
| "writes_key k (CacheDel k') = (k' = JStr k)"
| "writes_key k CacheClear = True"
| "writes_key k _ = False"

section \<open>Notions used to state the properties\<close>

text \<open>The part of the state that belongs to the cache and to the platform's timers.\<close>

definition cache_part ::
  "world \<Rightarrow> (string \<times> entry) list \<times> nat \<times> nat \<times> (nat \<times> timer) list \<times> nat \<times> nat" where
  "cache_part s = (cache s, hits s, misses s, timers s, next_timer s, now s)"

fun is_Delivered :: "event \<Rightarrow> bool" where
  "is_Delivered (Delivered e cb datos) = True"
| "is_Delivered _ = False"

fun is_Emitted :: "event \<Rightarrow> bool" where
  "is_Emitted (Emitted e datos) = True"
| "is_Emitted _ = False"

definition deliveries :: "event list \<Rightarrow> event list" where
  "deliveries t = filter is_Delivered t"

text \<open>What an operation appended to the trace.\<close>

definition new_events :: "world \<Rightarrow> world \<Rightarrow> event list" where
  "new_events s s' = drop (length (trace s)) (trace s')"

text \<open>The subscribers of an event, in registration order.\<close>

definition subscribers :: "world \<Rightarrow> string \<Rightarrow> callback list" where
  "subscribers s evento =
     (case map_of (listeners s) evento of None \<Rightarrow> [] | Some cbs \<Rightarrow> live cbs)"

text \<open>
  A subscriber of event \<open>e\<close> that empties no slot of \<open>e\<close> but its own: every
  caller's function, and every wrapper of \<^verbatim>\<open>once\<close> whose wrapped function does not
  unsubscribe itself from \<open>e\<close>.
\<close>

fun own_slot_only :: "string \<Rightarrow> callback \<Rightarrow> bool" where
  "own_slot_only e (Plain f) = True"
| "own_slot_only e (OnceWrapper i ev (UFun n b)) = (b \<noteq> Unsubscribes e)"

text \<open>A subscriber that removes its own subscription to \<open>e\<close> when it runs.\<close>

fun self_removing :: "string \<Rightarrow> callback \<Rightarrow> bool" where
  "self_removing e (Plain (UFun n b)) = (b = Unsubscribes e)"
| "self_removing e (OnceWrapper i ev (UFun n b)) = (ev = e \<and> b \<noteq> Throws)"

text \<open>
  The caller's function that a registered callback runs, whether that function throws,
  and whether a callback sits under the event it was registered for (a wrapper of
  \<^verbatim>\<open>once\<close> is made for one event and registered under it).
\<close>

fun wrapped :: "callback \<Rightarrow> ufun" where
  "wrapped (Plain f) = f"
| "wrapped (OnceWrapper i ev f) = f"

fun throws :: "ufun \<Rightarrow> bool" where
  "throws (UFun n b) = (b = Throws)"

fun placed :: "string \<Rightarrow> callback \<Rightarrow> bool" where
  "placed e (Plain f) = True"
| "placed e (OnceWrapper i ev f) = (ev = e)"

text \<open>
  What one delivery leaves in the trace when nothing is skipped: the arrow function of
  \<^verbatim>\<open>forEach\<close> calls the callback, the caller's function runs with the arguments, and
  if it throws, the \<^verbatim>\<open>catch\<close> of line 52 logs the error.
\<close>

definition reaction :: "string \<Rightarrow> callback \<Rightarrow> jsval list \<Rightarrow> event list" where
  "reaction e cb datos =
     Delivered e cb datos # Called (wrapped cb) datos #
     (if throws (wrapped cb) then [LoggedError e] else [])"

text \<open>
  The entry that \<^verbatim>\<open>get\<close> returns the value of: stored, and not past its expiry
  by the test of line 190.
\<close>

definition live_entry :: "world \<Rightarrow> jsval \<Rightarrow> entry option" where
  "live_entry s clave =
     (case cache_lookup s clave of
        None \<Rightarrow> None
      | Some entrada \<Rightarrow>
          if expiracion entrada > 0 \<and> expiracion entrada < date_now s then None
          else Some entrada)"

text \<open>
  The timer discipline of the cache. A pending timer is owned: the entry stored
  under its key holds its handle and does not expire before the timer is due. An entry
  that holds a handle is armed: that handle was issued, and its timer is pending for
  this key.
\<close>

definition owned :: "world \<Rightarrow> nat \<Rightarrow> timer \<Rightarrow> bool" where
  "owned s tid t =
     (case map_of (cache s) (t_clave t) of
        None \<Rightarrow> False
      | Some entrada \<Rightarrow>
          timeoutId entrada = Some tid \<and> 0 < t_due t \<and> t_due t \<le> expiracion entrada)"

definition armed :: "world \<Rightarrow> string \<Rightarrow> entry \<Rightarrow> bool" where
  "armed s k entrada =
     (case timeoutId entrada of
        None \<Rightarrow> True
      | Some tid \<Rightarrow>
          tid < next_timer s \<and>
          (case map_of (timers s) tid of None \<Rightarrow> False | Some t \<Rightarrow> t_clave t = k))"

definition cache_inv :: "world \<Rightarrow> bool" where
  "cache_inv s =
     ((\<forall>(tid, t) \<in> set (timers s). map_of (timers s) tid = Some t \<longrightarrow> owned s tid t) \<and>
      (\<forall>(k, entrada) \<in> set (cache s).
          map_of (cache s) k = Some entrada \<longrightarrow> armed s k entrada))"

text \<open>The timers that are pending for a key.\<close>

definition pending_for :: "world \<Rightarrow> string \<Rightarrow> nat list" where
  "pending_for s k =
     map fst (filter (\<lambda>(tid, t). map_of (timers s) tid = Some t \<and> t_clave t = k) (timers s))"

text \<open>
  Key \<open>k\<close> was stored with value \<open>v\<close>, expiry \<open>ex\<close> and a timer due at \<open>due\<close> (both
  0 for none) and not written since: it still holds that entry, with a timer that, while
  pending, is due at \<open>due\<close>; or it is gone and \<open>due\<close> has been reached.
\<close>

definition tracked :: "string \<Rightarrow> jsval \<Rightarrow> int \<Rightarrow> int \<Rightarrow> world \<Rightarrow> bool" where
  "tracked k v ex due s =
     (due \<le> ex \<and> (0 < ex \<longrightarrow> 0 < due) \<and>
      (case map_of (cache s) k of
         None \<Rightarrow> 0 < due \<and> due \<le> date_now s
       | Some entrada \<Rightarrow>
           valor entrada = v \<and> expiracion entrada = ex \<and>
           (0 < ex \<longrightarrow>
              (case timeoutId entrada of
                 None \<Rightarrow> False
               | Some tid \<Rightarrow>
                   (case map_of (timers s) tid of None \<Rightarrow> True | Some t \<Rightarrow> t_due t = due)))))"

declare forEach_from.simps [simp del]

section \<open>The bus leaves the cache alone\<close>

lemmas alist_simps = update_conv' delete_conv'

lemma cache_part_trace [simp]: "cache_part (s\<lparr>trace := t\<rparr>) = cache_part s"
  by (simp add: cache_part_def)

lemma cache_part_listeners [simp]: "cache_part (s\<lparr>listeners := l\<rparr>) = cache_part s"
  by (simp add: cache_part_def)

lemma cache_part_next_fn [simp]: "cache_part (s\<lparr>next_fn := l\<rparr>) = cache_part s"
  by (simp add: cache_part_def)

lemma cache_part_off [simp]: "cache_part (off a b s) = cache_part s"
  by (simp add: off_def split: jsval.splits option.splits)

lemma cache_part_remover: "run_remover r s = Inr s' \<Longrightarrow> cache_part s' = cache_part s"
  by (cases r) (auto split: option.splits)

lemma cache_part_call_ufun: "cache_part (snd (call_ufun f datos s)) = cache_part s"
proof (cases f)
  case (UFun n b)
  then show ?thesis by (cases b) (simp_all add: call_ufun_def Let_def)
qed

lemma cache_part_invoke: "cache_part (snd (invoke cb datos s)) = cache_part s"
proof (cases cb)
  case (Plain f)
  then show ?thesis by (simp add: cache_part_call_ufun)
next
  case (OnceWrapper i e f)
  obtain r s1 where c: "call_ufun f datos s = (r, s1)" by (cases "call_ufun f datos s")
  have s1: "cache_part s1 = cache_part s" using cache_part_call_ufun[of f datos s] c by simp
  show ?thesis
    using OnceWrapper c s1 cache_part_remover[of "Remover e (OnceWrapper i e f)" s1]
    by (auto simp del: run_remover.simps split: option.splits sum.splits)
qed

lemma cache_part_dispatch [simp]: "cache_part (dispatch e cb datos s) = cache_part s"
proof -
  obtain r s1 where i: "invoke cb datos (s\<lparr>trace := trace s @ [Delivered e cb datos]\<rparr>) = (r, s1)"
    by (cases "invoke cb datos (s\<lparr>trace := trace s @ [Delivered e cb datos]\<rparr>)")
  have "cache_part s1 = cache_part s"
    using cache_part_invoke[of cb datos "s\<lparr>trace := trace s @ [Delivered e cb datos]\<rparr>"] i
    by simp
  then show ?thesis using i by (cases r) (simp_all add: dispatch_def)
qed

lemma cache_part_forEach [simp]: "cache_part (forEach_from e datos i s) = cache_part s"
proof (induction e datos i s rule: forEach_from.induct)
  case (1 evento datos i s)
  show ?case
  proof (cases "map_of (listeners s) evento")
    case None
    then show ?thesis by (simp add: forEach_from.simps[of evento datos i s])
  next
    case (Some cbs)
    show ?thesis
    proof (cases "i < length cbs")
      case False
      with Some show ?thesis by (simp add: forEach_from.simps[of evento datos i s])
    next
      case True
      show ?thesis
      proof (cases "cbs ! i")
        case None
        with Some True "1.IH"(1) show ?thesis
          by (simp add: forEach_from.simps[of evento datos i s])
      next
        case (Some cb)
        with \<open>map_of (listeners s) evento = Some cbs\<close> True "1.IH"(2) show ?thesis
          by (simp add: forEach_from.simps[of evento datos i s])
      qed
    qed
  qed
qed

lemma emit_total: "\<exists>s'. emit (JStr e) datos s = Inr s'"
  by (simp add: emit_def Let_def split: option.splits)

lemma cache_part_emit: "emit ev datos s = Inr s' \<Longrightarrow> cache_part s' = cache_part s"
  by (auto simp: emit_def Let_def split: jsval.splits option.splits)

lemma cache_part_subscribe [simp]: "cache_part (snd (subscribe e cb s)) = cache_part s"
  by (simp add: subscribe_def Let_def)

lemma cache_part_on: "on e cb s = Inr (r, s') \<Longrightarrow> cache_part s' = cache_part s"
  by (auto simp: on_def split: option.splits jsval.splits prod.splits)
     (metis cache_part_subscribe snd_conv)+

lemma cache_part_once: "once e cb s = Inr s' \<Longrightarrow> cache_part s' = cache_part s"
  by (auto simp: once_def split: option.splits jsval.splits prod.splits)

lemma cache_part_bus_clear [simp]: "cache_part (bus_clear s) = cache_part s"
  by (simp add: bus_clear_def)

section \<open>The timer discipline is an invariant\<close>

lemma cache_inv_iff:
  "cache_inv s \<longleftrightarrow>
     (\<forall>tid t. map_of (timers s) tid = Some t \<longrightarrow> owned s tid t) \<and>
     (\<forall>k en. map_of (cache s) k = Some en \<longrightarrow> armed s k en)"
  unfolding cache_inv_def by (auto dest: map_of_SomeD)

lemma cache_inv_owned: "cache_inv s \<Longrightarrow> map_of (timers s) tid = Some t \<Longrightarrow> owned s tid t"
  by (simp add: cache_inv_iff)

lemma cache_inv_armed: "cache_inv s \<Longrightarrow> map_of (cache s) k = Some en \<Longrightarrow> armed s k en"
  by (simp add: cache_inv_iff)

lemma owned_iff:
  "owned s tid t \<longleftrightarrow>
     (\<exists>en. map_of (cache s) (t_clave t) = Some en \<and> timeoutId en = Some tid \<and>
           0 < t_due t \<and> t_due t \<le> expiracion en)"
  by (auto simp: owned_def split: option.splits)

lemma armed_iff:
  "armed s k en \<longleftrightarrow>
     (\<forall>tid. timeoutId en = Some tid \<longrightarrow>
        tid < next_timer s \<and> (\<exists>t. map_of (timers s) tid = Some t \<and> t_clave t = k))"
  by (auto simp: armed_def split: option.splits)

lemma timer_delay_bounds: "0 < after \<Longrightarrow> 0 < timer_delay after \<and> timer_delay after \<le> after"
  by (simp add: timer_delay_def)

lemma timer_delay_small: "0 < after \<Longrightarrow> after \<le> TIMEOUT_MAX \<Longrightarrow> timer_delay after = after"
  by (simp add: timer_delay_def)

lemma cache_inv_cong:
  "cache s' = cache s \<Longrightarrow> timers s' = timers s \<Longrightarrow> next_timer s' = next_timer s \<Longrightarrow>
   cache_inv s' = cache_inv s"
  by (simp add: cache_inv_iff owned_iff armed_iff)

lemma cache_inv_part: "cache_part s' = cache_part s \<Longrightarrow> cache_inv s' = cache_inv s"
  by (rule cache_inv_cong) (simp_all add: cache_part_def)

lemma tracked_part:
  "cache_part s' = cache_part s \<Longrightarrow> tracked k v ex due s' = tracked k v ex due s"
  by (simp add: cache_part_def tracked_def date_now_def cong: option.case_cong)

lemma limpiar_cache [simp]:
  "map_of (cache (limpiarEntrada k s)) = (map_of (cache s))(k := None)"
  by (auto simp: limpiarEntrada_def clearTimeout_def Let_def alist_simps split: option.splits)

lemma limpiar_timers:
  "map_of (timers (limpiarEntrada k s)) =
     (case map_of (cache s) k of
        None \<Rightarrow> map_of (timers s)
      | Some en \<Rightarrow> (case timeoutId en of None \<Rightarrow> map_of (timers s)
                    | Some tid \<Rightarrow> (map_of (timers s))(tid := None)))"
  by (auto simp: limpiarEntrada_def clearTimeout_def Let_def alist_simps split: option.splits)

lemma limpiar_frame [simp]:
  "next_timer (limpiarEntrada k s) = next_timer s"
  "now (limpiarEntrada k s) = now s"
  "hits (limpiarEntrada k s) = hits s"
  "misses (limpiarEntrada k s) = misses s"
  "listeners (limpiarEntrada k s) = listeners s"
  "trace (limpiarEntrada k s) = trace s"
  "next_fn (limpiarEntrada k s) = next_fn s"
  by (auto simp: limpiarEntrada_def clearTimeout_def Let_def split: option.splits)

lemma cache_inv_limpiar: "cache_inv s \<Longrightarrow> cache_inv (limpiarEntrada k s)"
proof -
  assume inv: "cache_inv s"
  have T: "\<And>tid t. map_of (timers s) tid = Some t \<Longrightarrow> owned s tid t"
    and E: "\<And>k en. map_of (cache s) k = Some en \<Longrightarrow> armed s k en"
    using inv by (auto simp: cache_inv_iff)
  let ?s = "limpiarEntrada k s"
  have 1: "owned ?s tid t" if p: "map_of (timers ?s) tid = Some t" for tid t
  proof -
    have p0: "map_of (timers s) tid = Some t"
      using p by (auto simp: limpiar_timers split: option.splits if_splits)
    from T[OF p0] obtain en where en: "map_of (cache s) (t_clave t) = Some en"
      "timeoutId en = Some tid" "0 < t_due t" "t_due t \<le> expiracion en"
      by (auto simp: owned_iff)
    have "t_clave t \<noteq> k"
    proof
      assume "t_clave t = k"
      with en p show False by (auto simp: limpiar_timers split: option.splits if_splits)
    qed
    with en show ?thesis by (simp add: owned_iff)
  qed
  have 2: "armed ?s k' en" if p: "map_of (cache ?s) k' = Some en" for k' en
  proof -
    from p have kk: "k' \<noteq> k" and p0: "map_of (cache s) k' = Some en"
      by (auto split: if_splits)
    show ?thesis
    proof (cases "timeoutId en")
      case None
      then show ?thesis by (simp add: armed_iff)
    next
      case (Some tid)
      with E[OF p0] obtain t where a: "tid < next_timer s"
        "map_of (timers s) tid = Some t" "t_clave t = k'"
        by (auto simp: armed_iff)
      have "map_of (timers ?s) tid = map_of (timers s) tid"
      proof (cases "map_of (cache s) k")
        case None
        then show ?thesis by (simp add: limpiar_timers)
      next
        case (Some en0)
        show ?thesis
        proof (cases "timeoutId en0")
          case None
          with Some show ?thesis by (simp add: limpiar_timers)
        next
          case (Some tid0)
          with E[OF \<open>map_of (cache s) k = Some en0\<close>]
          obtain t0 where "map_of (timers s) tid0 = Some t0" "t_clave t0 = k"
            by (auto simp: armed_iff)
          with a kk have "tid0 \<noteq> tid" by auto
          with Some \<open>map_of (cache s) k = Some en0\<close> show ?thesis
            by (simp add: limpiar_timers)
        qed
      qed
      with a Some show ?thesis by (simp add: armed_iff)
    qed
  qed
  show ?thesis unfolding cache_inv_iff using 1 2 by blast
qed

lemma cache_set_error:
  "cache_set clave v ttl s = Inl err \<longleftrightarrow>
     err = InvalidArgument \<and> (case clave of JStr k \<Rightarrow> trim k = [] | _ \<Rightarrow> True)"
  by (auto simp: cache_set_def Let_def split: jsval.splits prod.splits)

lemma cache_set_timed:
  assumes "trim k \<noteq> []" "0 < normal_ttl ttl"
  shows "cache_set (JStr k) v ttl s =
           Inr ((limpiarEntrada k s)
                 \<lparr> timers := AList.update (next_timer s)
                     \<lparr>t_clave = k, t_due = date_now s + timer_delay (normal_ttl ttl)\<rparr>
                     (timers (limpiarEntrada k s)),
                   next_timer := Suc (next_timer s),
                   cache := AList.update k
                     \<lparr>valor = v, expiracion = date_now s + normal_ttl ttl,
                      timeoutId = Some (next_timer s)\<rparr> (cache (limpiarEntrada k s)) \<rparr>)"
  using assms by (simp add: cache_set_def Let_def setTimeout_def date_now_def)

lemma cache_set_untimed:
  assumes "trim k \<noteq> []" "\<not> 0 < normal_ttl ttl"
  shows "cache_set (JStr k) v ttl s =
           Inr ((limpiarEntrada k s)
                 \<lparr> cache := AList.update k \<lparr>valor = v, expiracion = 0, timeoutId = None\<rparr>
                              (cache (limpiarEntrada k s)) \<rparr>)"
  using assms by (simp add: cache_set_def Let_def)

lemma no_timer_without_entry:
  assumes "cache_inv s" "map_of (cache s) k = None" "map_of (timers s) tid = Some t"
  shows "t_clave t \<noteq> k"
  using cache_inv_owned[OF assms(1,3)] assms(2) by (auto simp: owned_iff)

lemma pending_issued:
  assumes "cache_inv s" "map_of (timers s) tid = Some t"
  shows "tid < next_timer s"
proof -
  from cache_inv_owned[OF assms]
  obtain en where en: "map_of (cache s) (t_clave t) = Some en" "timeoutId en = Some tid"
    by (auto simp: owned_iff)
  from cache_inv_armed[OF assms(1) en(1)] en(2) show ?thesis by (auto simp: armed_iff)
qed

lemma cache_inv_set:
  assumes inv: "cache_inv s" and ok: "cache_set clave v ttl s = Inr s'"
  shows "cache_inv s'"
proof -
  from ok obtain k where k: "clave = JStr k" "trim k \<noteq> []"
    by (auto simp: cache_set_def split: jsval.splits if_splits)
  let ?s1 = "limpiarEntrada k s"
  have inv1: "cache_inv ?s1" using inv by (rule cache_inv_limpiar)
  have T: "\<And>tid t. map_of (timers ?s1) tid = Some t \<Longrightarrow> owned ?s1 tid t"
    and E: "\<And>k en. map_of (cache ?s1) k = Some en \<Longrightarrow> armed ?s1 k en"
    using inv1 by (auto simp: cache_inv_iff)
  have nok: "map_of (cache ?s1) k = None" by simp
  show ?thesis
  proof (cases "0 < normal_ttl ttl")
    case False
    with ok k have s': "s' = ?s1\<lparr> cache := AList.update k
        \<lparr>valor = v, expiracion = 0, timeoutId = None\<rparr> (cache ?s1) \<rparr>"
      by (simp add: cache_set_untimed)
    have 1: "owned s' tid t" if p: "map_of (timers s') tid = Some t" for tid t
    proof -
      from p have p1: "map_of (timers ?s1) tid = Some t" by (simp add: s')
      from no_timer_without_entry[OF inv1 nok p1] T[OF p1] show ?thesis
        by (auto simp add: owned_iff s' alist_simps simp del: limpiar_cache)
    qed
    have 2: "armed s' k' en" if p: "map_of (cache s') k' = Some en" for k' en
    proof (cases "k' = k")
      case True
      with p show ?thesis by (auto simp: s' armed_iff alist_simps)
    next
      case False
      with p have "map_of (cache ?s1) k' = Some en" by (simp add: s' alist_simps)
      from E[OF this] show ?thesis by (simp add: armed_iff s')
    qed
    show ?thesis unfolding cache_inv_iff using 1 2 by blast
  next
    case True
    let ?n = "next_timer s"
    let ?ex = "date_now s + normal_ttl ttl"
    let ?due = "date_now s + timer_delay (normal_ttl ttl)"
    from True ok k have s': "s' = ?s1
                 \<lparr> timers := AList.update ?n \<lparr>t_clave = k, t_due = ?due\<rparr> (timers ?s1),
                   next_timer := Suc ?n,
                   cache := AList.update k
                     \<lparr>valor = v, expiracion = ?ex, timeoutId = Some ?n\<rparr> (cache ?s1) \<rparr>"
      by (simp add: cache_set_timed)
    have pos: "0 < ?due" "?due \<le> ?ex"
      using timer_delay_bounds[OF True] by (simp_all add: date_now_def)
    have 1: "owned s' tid t" if p: "map_of (timers s') tid = Some t" for tid t
    proof (cases "tid = ?n")
      case True
      with p pos show ?thesis by (auto simp: s' owned_iff alist_simps)
    next
      case False
      with p have p1: "map_of (timers ?s1) tid = Some t" by (simp add: s' alist_simps)
      from no_timer_without_entry[OF inv1 nok p1] T[OF p1] show ?thesis
        by (auto simp add: owned_iff s' alist_simps simp del: limpiar_cache)
    qed
    have 2: "armed s' k' en" if p: "map_of (cache s') k' = Some en" for k' en
    proof (cases "k' = k")
      case True
      with p show ?thesis by (auto simp: s' armed_iff alist_simps)
    next
      case False
      with p have "map_of (cache ?s1) k' = Some en" by (simp add: s' alist_simps)
      from E[OF this] show ?thesis
        by (auto simp: armed_iff s' alist_simps)
    qed
    show ?thesis unfolding cache_inv_iff using 1 2 by blast
  qed
qed

lemma cache_inv_fire: "cache_inv s \<Longrightarrow> cache_inv (timer_fire tid s)"
proof -
  assume inv: "cache_inv s"
  have T: "\<And>tid t. map_of (timers s) tid = Some t \<Longrightarrow> owned s tid t"
    and E: "\<And>k en. map_of (cache s) k = Some en \<Longrightarrow> armed s k en"
    using inv by (auto simp: cache_inv_iff)
  show ?thesis
  proof (cases "map_of (timers s) tid")
    case None
    with inv show ?thesis by (simp add: timer_fire_def)
  next
    case (Some t)
    show ?thesis
    proof (cases "t_due t \<le> date_now s")
      case False
      with Some inv show ?thesis by (simp add: timer_fire_def)
    next
      case True
      let ?s = "timer_fire tid s"
      have s': "?s = s\<lparr> timers := AList.delete tid (timers s),
                  cache := AList.delete (t_clave t) (cache s) \<rparr>"
        using Some True by (simp add: timer_fire_def)
      from T[OF Some] obtain en where en: "map_of (cache s) (t_clave t) = Some en"
        "timeoutId en = Some tid" by (auto simp: owned_iff)
      have 1: "owned ?s tid' t'" if p: "map_of (timers ?s) tid' = Some t'" for tid' t'
      proof -
        from p have ne: "tid' \<noteq> tid" and p0: "map_of (timers s) tid' = Some t'"
          by (auto simp: s' alist_simps split: if_splits)
        from T[OF p0] en ne have "t_clave t' \<noteq> t_clave t"
          by (auto simp: owned_iff)
        with T[OF p0] show ?thesis by (simp add: owned_iff s' alist_simps)
      qed
      have 2: "armed ?s k' en'" if p: "map_of (cache ?s) k' = Some en'" for k' en'
      proof -
        from p have ne: "k' \<noteq> t_clave t" and p0: "map_of (cache s) k' = Some en'"
          by (auto simp: s' alist_simps split: if_splits)
        show ?thesis
        proof (cases "timeoutId en'")
          case None
          then show ?thesis by (simp add: armed_iff)
        next
          case (Some tid')
          with E[OF p0] obtain t' where a: "tid' < next_timer s"
            "map_of (timers s) tid' = Some t'" "t_clave t' = k'"
            by (auto simp: armed_iff)
          with \<open>map_of (timers s) tid = Some t\<close> ne have "tid' \<noteq> tid" by auto
          with a Some show ?thesis by (simp add: armed_iff s' alist_simps)
        qed
      qed
      show ?thesis unfolding cache_inv_iff using 1 2 by blast
    qed
  qed
qed

lemma cache_inv_tick: "cache_inv s \<Longrightarrow> cache_inv (tick d s)"
  by (simp add: tick_def cache_inv_cong[of "s\<lparr>now := now s + d\<rparr>" s])

section \<open>What an emission appends to the trace\<close>

lemma forEach_rel:
  assumes refl: "\<And>s. R s s"
    and trans: "\<And>a b c. R a b \<Longrightarrow> R b c \<Longrightarrow> R a c"
    and stp: "\<And>cb s. R s (dispatch e cb datos s)"
  shows "R s (forEach_from e datos i s)"
  using stp
proof (induction e datos i s rule: forEach_from.induct)
  case (1 evento datos i s)
  show ?case
  proof (cases "map_of (listeners s) evento")
    case None
    then show ?thesis by (simp add: forEach_from.simps[of evento datos i s] refl)
  next
    case (Some cbs)
    show ?thesis
    proof (cases "i < length cbs")
      case False
      with Some show ?thesis by (simp add: forEach_from.simps[of evento datos i s] refl)
    next
      case True
      show ?thesis
      proof (cases "cbs ! i")
        case None
        with Some True "1.IH"(1) "1.prems" show ?thesis
          by (simp add: forEach_from.simps[of evento datos i s])
      next
        case (Some cb)
        have "R s (dispatch evento cb datos s)" by (rule "1.prems")
        moreover have "R (dispatch evento cb datos s)
                         (forEach_from evento datos (Suc i) (dispatch evento cb datos s))"
          using "1.IH"(2)[OF \<open>map_of (listeners s) evento = Some cbs\<close> True Some]
            "1.prems" by blast
        ultimately show ?thesis
          using \<open>map_of (listeners s) evento = Some cbs\<close> True Some trans
          by (simp add: forEach_from.simps[of evento datos i s])
      qed
    qed
  qed
qed


lemma trace_off [simp]: "trace (off a b s) = trace s"
  by (simp add: off_def split: jsval.splits option.splits)

lemma trace_remover: "run_remover r s = Inr s' \<Longrightarrow> trace s' = trace s"
  by (cases r) (auto split: option.splits)

lemma trace_call_ufun: "trace (snd (call_ufun f datos s)) = trace s @ [Called f datos]"
proof (cases f)
  case (UFun n b)
  then show ?thesis by (cases b) (simp_all add: call_ufun_def Let_def)
qed

lemma trace_invoke:
  "\<exists>tl. trace (snd (invoke cb datos s)) = trace s @ tl \<and>
        (\<forall>ev\<in>set tl. \<not> is_Emitted ev \<and> \<not> is_Delivered ev)"
proof (cases cb)
  case (Plain f)
  then show ?thesis by (simp add: trace_call_ufun)
next
  case (OnceWrapper i e f)
  obtain r s1 where c: "call_ufun f datos s = (r, s1)" by (cases "call_ufun f datos s")
  have s1: "trace s1 = trace s @ [Called f datos]" using trace_call_ufun[of f datos s] c by simp
  show ?thesis
    using OnceWrapper c s1 trace_remover[of "Remover e (OnceWrapper i e f)" s1]
    by (auto simp del: run_remover.simps split: option.splits sum.splits)
qed

lemma trace_dispatch:
  "\<exists>tl. trace (dispatch e cb datos s) = trace s @ Delivered e cb datos # tl \<and>
        (\<forall>ev\<in>set tl. \<not> is_Emitted ev \<and> \<not> is_Delivered ev)"
proof -
  let ?s0 = "s\<lparr>trace := trace s @ [Delivered e cb datos]\<rparr>"
  obtain r s1 where i: "invoke cb datos ?s0 = (r, s1)" by (cases "invoke cb datos ?s0")
  from trace_invoke[of cb datos ?s0] i obtain tl where
    tl: "trace s1 = trace s @ Delivered e cb datos # tl"
        "\<forall>ev\<in>set tl. \<not> is_Emitted ev \<and> \<not> is_Delivered ev" by auto
  show ?thesis
  proof (cases r)
    case None
    with i tl show ?thesis by (simp add: dispatch_def)
  next
    case (Some err)
    with i tl have "trace (dispatch e cb datos s) = trace s @ Delivered e cb datos # (tl @ [LoggedError e])"
      by (simp add: dispatch_def)
    moreover have "\<forall>ev\<in>set (tl @ [LoggedError e]). \<not> is_Emitted ev \<and> \<not> is_Delivered ev"
      using tl(2) by simp
    ultimately show ?thesis by blast
  qed
qed

lemma deliveries_dispatch:
  "deliveries (trace (dispatch e cb datos s)) = deliveries (trace s) @ [Delivered e cb datos]"
proof -
  from trace_dispatch[of e cb datos s] obtain tl where
    tl: "trace (dispatch e cb datos s) = trace s @ Delivered e cb datos # tl"
        "\<forall>ev\<in>set tl. \<not> is_Emitted ev \<and> \<not> is_Delivered ev" by auto
  then have "filter is_Delivered tl = []" by (auto simp: filter_empty_conv)
  with tl(1) show ?thesis by (simp add: deliveries_def)
qed

lemma trace_forEach:
  "\<exists>tl. trace (forEach_from e datos i s) = trace s @ tl \<and> (\<forall>ev\<in>set tl. \<not> is_Emitted ev)"
proof (rule forEach_rel[where R = "\<lambda>s s'. \<exists>tl. trace s' = trace s @ tl \<and> (\<forall>ev\<in>set tl. \<not> is_Emitted ev)"])
  show "\<And>s. \<exists>tl. trace s = trace s @ tl \<and> (\<forall>ev\<in>set tl. \<not> is_Emitted ev)" by simp
next
  fix a b c :: world
  assume "\<exists>tl. trace b = trace a @ tl \<and> (\<forall>ev\<in>set tl. \<not> is_Emitted ev)"
     and "\<exists>tl. trace c = trace b @ tl \<and> (\<forall>ev\<in>set tl. \<not> is_Emitted ev)"
  then obtain t1 t2 where "trace b = trace a @ t1" "\<forall>ev\<in>set t1. \<not> is_Emitted ev"
     "trace c = trace b @ t2" "\<forall>ev\<in>set t2. \<not> is_Emitted ev" by blast
  then have "trace c = trace a @ (t1 @ t2) \<and> (\<forall>ev\<in>set (t1 @ t2). \<not> is_Emitted ev)" by auto
  then show "\<exists>tl. trace c = trace a @ tl \<and> (\<forall>ev\<in>set tl. \<not> is_Emitted ev)" by blast
next
  fix cb s
  from trace_dispatch[of e cb datos s] obtain tl where
    tl: "trace (dispatch e cb datos s) = trace s @ Delivered e cb datos # tl"
        "\<forall>ev\<in>set tl. \<not> is_Emitted ev \<and> \<not> is_Delivered ev" by auto
  then have "trace (dispatch e cb datos s) = trace s @ (Delivered e cb datos # tl) \<and>
     (\<forall>ev\<in>set (Delivered e cb datos # tl). \<not> is_Emitted ev)" by simp
  then show "\<exists>tl. trace (dispatch e cb datos s) = trace s @ tl \<and> (\<forall>ev\<in>set tl. \<not> is_Emitted ev)"
    by blast
qed

lemma trace_emit:
  assumes "emit (JStr e) datos s = Inr s'"
  shows "\<exists>tl. trace s' = trace s @ Emitted e datos # tl \<and> (\<forall>ev\<in>set tl. \<not> is_Emitted ev)"
proof (cases "map_of (listeners s) e")
  case None
  with assms show ?thesis by (auto simp: emit_def Let_def)
next
  case (Some cbs)
  let ?s1 = "s\<lparr>trace := trace s @ [Emitted e datos]\<rparr>"
  from Some assms have "s' = forEach_from e datos 0 ?s1" by (auto simp: emit_def Let_def)
  with trace_forEach[of e datos 0 ?s1] show ?thesis by auto
qed

lemma cache_get_hit:
  assumes "live_entry s clave = Some en"
  shows "\<exists>s'. cache_get clave s = Inr (valor en, s') \<and>
              emit (JStr ''cache:hit'') [clave, valor en] (s\<lparr>hits := hits s + 1\<rparr>) = Inr s'"
proof -
  from emit_total obtain s' where
    e: "emit (JStr ''cache:hit'') [clave, valor en] (s\<lparr>hits := hits s + 1\<rparr>) = Inr s'" by blast
  from assms have "cache_lookup s clave = Some en"
    "\<not> (expiracion en > 0 \<and> expiracion en < date_now s)"
    by (auto simp: live_entry_def split: option.splits if_splits)
  with e show ?thesis by (auto simp add: cache_get_def)
qed

lemma limpiar_absent: "map_of (cache s) k = None \<Longrightarrow> limpiarEntrada k s = s"
  by (simp add: limpiarEntrada_def)

lemma cache_get_miss:
  assumes "live_entry s clave = None"
  shows "\<exists>s'. cache_get clave s = Inr (JNull, s') \<and>
              emit (JStr ''cache:miss'') [clave]
                ((case clave of JStr k \<Rightarrow> limpiarEntrada k s | _ \<Rightarrow> s)
                   \<lparr>misses := misses s + 1\<rparr>) = Inr s'"
proof -
  let ?s0 = "case clave of JStr k \<Rightarrow> limpiarEntrada k s | _ \<Rightarrow> s"
  from emit_total obtain s' where
    e: "emit (JStr ''cache:miss'') [clave] (?s0\<lparr>misses := misses s + 1\<rparr>) = Inr s'" by blast
  have m: "misses ?s0 = misses s" by (simp split: jsval.splits)
  show ?thesis
  proof (cases "cache_lookup s clave")
    case None
    then have "?s0 = s" by (auto simp: cache_lookup_def limpiar_absent split: jsval.splits)
    with None e show ?thesis by (simp add: cache_get_def report_miss_def)
  next
    case (Some en)
    with assms have "expiracion en > 0 \<and> expiracion en < date_now s"
      by (auto simp: live_entry_def split: if_splits)
    with Some e m show ?thesis by (simp add: cache_get_def report_miss_def)
  qed
qed

section \<open>Every operation keeps the timer discipline\<close>

lemma cache_part_get:
  assumes "cache_get clave s = Inr (v, s')"
  shows "cache_part s' =
           (case live_entry s clave of
              Some en \<Rightarrow> cache_part (s\<lparr>hits := hits s + 1\<rparr>)
            | None \<Rightarrow> cache_part ((case clave of JStr k \<Rightarrow> limpiarEntrada k s | _ \<Rightarrow> s)
                                    \<lparr>misses := misses s + 1\<rparr>))"
proof (cases "live_entry s clave")
  case None
  from cache_get_miss[OF None] assms cache_part_emit show ?thesis
    using None by (auto simp del: One_nat_def)
next
  case (Some en)
  from cache_get_hit[OF Some] assms cache_part_emit show ?thesis
    using Some by (auto simp del: One_nat_def)
qed

lemma cache_get_total: "\<exists>v s'. cache_get clave s = Inr (v, s')"
  using cache_get_hit[of s clave] cache_get_miss[of s clave]
  by (cases "live_entry s clave") blast+

lemma cache_inv_get:
  assumes "cache_inv s" "cache_get clave s = Inr (v, s')"
  shows "cache_inv s'"
proof (cases "live_entry s clave")
  case (Some en)
  with cache_part_get[OF assms(2)] have "cache_part s' = cache_part (s\<lparr>hits := hits s + 1\<rparr>)"
    by simp
  then have "cache_inv s' = cache_inv s"
    by (intro cache_inv_cong) (simp_all add: cache_part_def)
  with assms show ?thesis by simp
next
  case None
  let ?s0 = "case clave of JStr k \<Rightarrow> limpiarEntrada k s | _ \<Rightarrow> s"
  from None cache_part_get[OF assms(2)]
  have "cache_part s' = cache_part (?s0\<lparr>misses := misses s + 1\<rparr>)" by simp
  then have "cache_inv s' = cache_inv ?s0"
    by (intro cache_inv_cong) (simp_all add: cache_part_def)
  moreover have "cache_inv ?s0"
    using assms(1) by (auto split: jsval.splits intro: cache_inv_limpiar)
  ultimately show ?thesis by simp
qed

lemma cache_inv_del: "cache_inv s \<Longrightarrow> cache_inv (snd (cache_del clave s))"
  by (auto simp: cache_del_def split: jsval.splits intro: cache_inv_limpiar)

lemma fold_limpiar_inv: "cache_inv s \<Longrightarrow> cache_inv (fold limpiarEntrada ks s)"
  by (induction ks arbitrary: s) (simp_all add: cache_inv_limpiar)

lemma fold_limpiar_cache:
  "map_of (cache (fold limpiarEntrada ks s)) k = (if k \<in> set ks then None else map_of (cache s) k)"
  by (induction ks arbitrary: s) auto

lemma fold_limpiar_frame [simp]:
  "next_timer (fold limpiarEntrada ks s) = next_timer s"
  "now (fold limpiarEntrada ks s) = now s"
  "listeners (fold limpiarEntrada ks s) = listeners s"
  "trace (fold limpiarEntrada ks s) = trace s"
  "next_fn (fold limpiarEntrada ks s) = next_fn s"
  by (induction ks arbitrary: s) auto

lemma clear_no_timers:
  assumes "cache_inv s"
  shows "map_of (timers (fold limpiarEntrada (map fst (cache s)) s)) tid = None"
proof (rule ccontr)
  let ?s1 = "fold limpiarEntrada (map fst (cache s)) s"
  assume "map_of (timers ?s1) tid \<noteq> None"
  then obtain t where t: "map_of (timers ?s1) tid = Some t" by auto
  have "cache_inv ?s1" using assms by (rule fold_limpiar_inv)
  from cache_inv_owned[OF this t] obtain en where "map_of (cache ?s1) (t_clave t) = Some en"
    by (auto simp: owned_iff)
  then show False
    by (auto simp: fold_limpiar_cache map_of_eq_None_iff[symmetric] split: if_splits)
qed

lemma cache_inv_clear: "cache_inv s \<Longrightarrow> cache_inv (cache_clear s)"
  unfolding cache_inv_iff[of "cache_clear s"]
  by (simp add: cache_clear_def Let_def clear_no_timers)

lemma cache_inv_step: "cache_inv s \<Longrightarrow> cache_inv (step op s)"
proof (cases op)
  case (CacheSet k v ttl)
  assume "cache_inv s"
  with CacheSet show ?thesis by (auto split: sum.splits intro: cache_inv_set)
next
  case (CacheGet k)
  assume "cache_inv s"
  with CacheGet show ?thesis by (auto split: sum.splits intro: cache_inv_get)
next
  case (CacheDel k)
  assume "cache_inv s"
  with CacheDel show ?thesis by (simp add: cache_inv_del)
next
  case CacheClear
  assume "cache_inv s"
  with CacheClear show ?thesis by (simp add: cache_inv_clear)
next
  case (TimerFire tid)
  assume "cache_inv s"
  with TimerFire show ?thesis by (simp add: cache_inv_fire)
next
  case (Tick d)
  assume "cache_inv s"
  with Tick show ?thesis by (simp add: cache_inv_tick)
next
  case (BusOn e cb)
  assume "cache_inv s"
  with BusOn show ?thesis by (auto split: sum.splits dest!: cache_part_on cache_inv_part)
next
  case (BusOnce e cb)
  assume "cache_inv s"
  with BusOnce show ?thesis by (auto split: sum.splits dest!: cache_part_once cache_inv_part)
next
  case (BusOff e cb)
  assume "cache_inv s"
  with BusOff show ?thesis by (simp add: cache_inv_part[of "off e cb s" s])
next
  case (BusEmit e datos)
  assume "cache_inv s"
  with BusEmit show ?thesis by (auto split: sum.splits dest!: cache_part_emit cache_inv_part)
next
  case BusClear
  assume "cache_inv s"
  with BusClear show ?thesis by (simp add: cache_inv_part[of "bus_clear s" s])
next
  case (RunRemover r)
  assume "cache_inv s"
  with RunRemover show ?thesis by (auto split: sum.splits dest!: cache_part_remover cache_inv_part)
qed

lemma cache_inv_run: "cache_inv s \<Longrightarrow> cache_inv (run ops s)"
  unfolding run_def by (induction ops arbitrary: s) (simp_all add: cache_inv_step)

lemma cache_inv_init: "cache_inv init"
  by (simp add: cache_inv_def init_def)

section \<open>An entry that nobody rewrites\<close>

lemma tracked_cong:
  assumes "map_of (cache s') k = map_of (cache s) k" and "now s \<le> now s'"
    and "\<And>en tid t. map_of (cache s) k = Some en \<Longrightarrow> timeoutId en = Some tid \<Longrightarrow>
           map_of (timers s') tid = Some t \<Longrightarrow> map_of (timers s) tid = Some t"
    and "tracked k v ex due s"
  shows "tracked k v ex due s'"
proof (cases "map_of (cache s) k")
  case None
  with assms(1,2,4) show ?thesis by (auto simp: tracked_def date_now_def)
next
  case (Some en)
  show ?thesis
  proof (cases "0 < ex")
    case False
    with Some assms(1,4) show ?thesis by (auto simp: tracked_def)
  next
    case True
    with Some assms(4) obtain tid where tid: "timeoutId en = Some tid"
      and d: "\<And>t. map_of (timers s) tid = Some t \<Longrightarrow> t_due t = due"
      by (auto simp: tracked_def split: option.splits)
    have "t_due t = due" if "map_of (timers s') tid = Some t" for t
      using d assms(3)[OF Some tid that] by blast
    with Some tid assms(1,4) show ?thesis
      by (auto simp: tracked_def split: option.splits)
  qed
qed

lemma limpiar_timers_sub:
  "map_of (timers (limpiarEntrada k s)) tid = Some t \<Longrightarrow> map_of (timers s) tid = Some t"
  by (auto simp: limpiar_timers split: option.splits if_splits)

lemma tracked_limpiar_other:
  assumes "k' \<noteq> k" "tracked k v ex due s"
  shows "tracked k v ex due (limpiarEntrada k' s)"
proof (rule tracked_cong[OF _ _ _ assms(2)])
  show "map_of (cache (limpiarEntrada k' s)) k = map_of (cache s) k" using assms(1) by simp
  show "now s \<le> now (limpiarEntrada k' s)" by simp
  show "map_of (timers s) tid = Some t"
    if "map_of (timers (limpiarEntrada k' s)) tid = Some t" for tid t
    using that by (rule limpiar_timers_sub)
qed

lemma tracked_set_other:
  assumes "cache_inv s" "clave \<noteq> JStr k" "tracked k v ex due s"
    "cache_set clave v' ttl s = Inr s'"
  shows "tracked k v ex due s'"
proof -
  from assms(4) obtain k' where k: "clave = JStr k'" "trim k' \<noteq> []"
    by (auto simp: cache_set_def split: jsval.splits if_splits)
  with assms(2) have ne: "k' \<noteq> k" by simp
  have old: "map_of (timers s) tid = Some t"
    if "map_of (cache s) k = Some en" "timeoutId en = Some tid" "map_of (timers s') tid = Some t"
    for en tid t
  proof -
    from cache_inv_armed[OF assms(1) that(1)] that(2) have lt: "tid < next_timer s"
      by (auto simp: armed_iff)
    have "map_of (timers (limpiarEntrada k' s)) tid = Some t"
    proof (cases "0 < normal_ttl ttl")
      case True
      with assms(4) k that(3) lt show ?thesis by (auto simp: cache_set_timed alist_simps)
    next
      case False
      with assms(4) k that(3) show ?thesis by (auto simp: cache_set_untimed)
    qed
    then show ?thesis by (rule limpiar_timers_sub)
  qed
  show ?thesis
  proof (rule tracked_cong[OF _ _ old assms(3)])
    show "map_of (cache s') k = map_of (cache s) k"
      using assms(4) k ne
      by (cases "0 < normal_ttl ttl") (auto simp: cache_set_timed cache_set_untimed alist_simps)
    show "now s \<le> now s'"
      using assms(4) k
      by (cases "0 < normal_ttl ttl") (auto simp: cache_set_timed cache_set_untimed)
  qed
qed

lemma tracked_expired:
  assumes "tracked k v ex due s" "live_entry s (JStr k) = None"
  shows "0 < due \<and> due \<le> date_now s"
  using assms
  by (auto simp: tracked_def live_entry_def cache_lookup_def split: option.splits if_splits)

lemma tracked_get:
  assumes "tracked k v ex due s" "cache_get clave s = Inr (r, s')"
  shows "tracked k v ex due s'"
proof (cases "live_entry s clave")
  case (Some en)
  with cache_part_get[OF assms(2)] have "cache_part s' = cache_part (s\<lparr>hits := hits s + 1\<rparr>)"
    by simp
  then show ?thesis
    by (intro tracked_cong[OF _ _ _ assms(1)]) (simp_all add: cache_part_def)
next
  case None
  let ?s0 = "case clave of JStr k \<Rightarrow> limpiarEntrada k s | _ \<Rightarrow> s"
  from None cache_part_get[OF assms(2)]
  have cp: "cache_part s' = cache_part (?s0\<lparr>misses := misses s + 1\<rparr>)" by simp
  have n: "now ?s0 = now s" by (simp split: jsval.splits)
  have "tracked k v ex due ?s0"
  proof (cases "clave = JStr k")
    case True
    from tracked_expired[OF assms(1)] None True assms(1)
    show ?thesis by (simp add: True tracked_def date_now_def)
  next
    case False
    with assms(1) show ?thesis by (auto split: jsval.splits intro: tracked_limpiar_other)
  qed
  then show ?thesis
    using cp n by (intro tracked_cong[of s' k ?s0]) (simp_all add: cache_part_def)
qed

lemma tracked_fire:
  assumes "cache_inv s" "tracked k v ex due s"
  shows "tracked k v ex due (timer_fire tid s)"
proof (cases "map_of (timers s) tid")
  case None
  with assms show ?thesis by (simp add: timer_fire_def)
next
  case (Some t)
  show ?thesis
  proof (cases "t_due t \<le> date_now s")
    case False
    with Some assms show ?thesis by (simp add: timer_fire_def)
  next
    case True
    have s': "timer_fire tid s = s\<lparr> timers := AList.delete tid (timers s),
                  cache := AList.delete (t_clave t) (cache s) \<rparr>"
      using Some True by (simp add: timer_fire_def)
    show ?thesis
    proof (cases "t_clave t = k")
      case False
      then show ?thesis
        by (intro tracked_cong[OF _ _ _ assms(2)])
           (auto simp add: s' alist_simps split: if_splits)
    next
      case k: True
      from cache_inv_owned[OF assms(1) Some] k obtain en where en:
        "map_of (cache s) k = Some en" "timeoutId en = Some tid"
        "0 < t_due t" "t_due t \<le> expiracion en"
        by (auto simp: owned_iff)
      with assms(2) have "0 < ex" by (simp add: tracked_def)
      with assms(2) en Some have "t_due t = due" by (simp add: tracked_def)
      with en(3) True assms(2) show ?thesis
        by (simp add: tracked_def s' k alist_simps date_now_def)
    qed
  qed
qed

lemma tracked_step:
  assumes inv: "cache_inv s" and tr: "tracked k v ex due s" and nw: "\<not> writes_key k op"
  shows "tracked k v ex due (step op s)"
proof (cases op)
  case (CacheSet clave v' ttl)
  with nw tr inv show ?thesis by (auto split: sum.splits intro: tracked_set_other)
next
  case (CacheGet clave)
  with tr show ?thesis by (auto split: sum.splits intro: tracked_get)
next
  case (CacheDel clave)
  with nw tr show ?thesis
    by (auto simp: cache_del_def split: jsval.splits intro: tracked_limpiar_other)
next
  case CacheClear
  with nw show ?thesis by simp
next
  case (TimerFire tid)
  with inv tr show ?thesis by (simp add: tracked_fire)
next
  case (Tick d)
  with tr show ?thesis by (auto simp: tick_def intro: tracked_cong)
next
  case (BusOn e cb)
  with tr show ?thesis by (auto split: sum.splits dest!: cache_part_on tracked_part)
next
  case (BusOnce e cb)
  with tr show ?thesis by (auto split: sum.splits dest!: cache_part_once tracked_part)
next
  case (BusOff e cb)
  with tr show ?thesis by (simp add: tracked_part[of "off e cb s" s])
next
  case (BusEmit e datos)
  with tr show ?thesis by (auto split: sum.splits dest!: cache_part_emit tracked_part)
next
  case BusClear
  with tr show ?thesis by (simp add: tracked_part[of "bus_clear s" s])
next
  case (RunRemover r)
  with tr show ?thesis by (auto split: sum.splits dest!: cache_part_remover tracked_part)
qed

lemma tracked_run:
  "cache_inv s \<Longrightarrow> tracked k v ex due s \<Longrightarrow> \<forall>op\<in>set ops. \<not> writes_key k op \<Longrightarrow>
   tracked k v ex due (run ops s)"
  unfolding run_def
  by (induction ops arbitrary: s) (simp_all add: cache_inv_step tracked_step)

lemma tracked_after_set:
  assumes "cache_set (JStr k) v ttl s = Inr s'"
  shows "tracked k v (if 0 < normal_ttl ttl then date_now s + normal_ttl ttl else 0)
           (if 0 < normal_ttl ttl then date_now s + timer_delay (normal_ttl ttl) else 0) s'"
proof -
  from assms have k: "trim k \<noteq> []" by (auto simp: cache_set_def split: if_splits)
  show ?thesis
  proof (cases "0 < normal_ttl ttl")
    case True
    with assms k timer_delay_bounds[OF True] show ?thesis
      by (auto simp: cache_set_timed tracked_def alist_simps date_now_def)
  next
    case False
    with assms k show ?thesis by (auto simp: cache_set_untimed tracked_def alist_simps)
  qed
qed

lemma tracked_live:
  assumes "tracked k v ex due s" "ex = 0 \<or> date_now s \<le> ex" "map_of (cache s) k \<noteq> None"
  shows "\<exists>en. live_entry s (JStr k) = Some en \<and> valor en = v"
  using assms by (auto simp: tracked_def live_entry_def cache_lookup_def split: option.splits)

lemma tracked_present:
  assumes "tracked k v ex due s" "ex = 0 \<or> date_now s < due"
  shows "map_of (cache s) k \<noteq> None"
  using assms by (auto simp: tracked_def split: option.splits)

lemma tracked_dead:
  assumes "tracked k v ex due s" "0 < ex" "ex < date_now s \<or> map_of (cache s) k = None"
  shows "live_entry s (JStr k) = None"
  using assms by (auto simp: tracked_def live_entry_def cache_lookup_def split: option.splits)

lemma get_counts_hit:
  assumes "live_entry s clave = Some en"
  shows "\<exists>s'. cache_get clave s = Inr (valor en, s') \<and> hits s' = hits s + 1 \<and>
              misses s' = misses s"
proof -
  from cache_get_hit[OF assms] obtain s' where
    g: "cache_get clave s = Inr (valor en, s')" by blast
  from cache_part_get[OF g] assms show ?thesis using g by (simp add: cache_part_def)
qed

lemma get_counts_miss:
  assumes "live_entry s clave = None"
  shows "\<exists>s'. cache_get clave s = Inr (JNull, s') \<and> misses s' = misses s + 1 \<and>
              hits s' = hits s"
proof -
  from cache_get_miss[OF assms] obtain s' where
    g: "cache_get clave s = Inr (JNull, s')" by blast
  from cache_part_get[OF g] assms show ?thesis using g
    by (auto simp add: cache_part_def split: jsval.splits)
qed

lemma pending_iff_stored:
  assumes "cache_inv s" "tracked k v ex due s" "0 < ex"
  shows "pending_for s k \<noteq> [] \<longleftrightarrow> map_of (cache s) k \<noteq> None"
proof
  assume "pending_for s k \<noteq> []"
  then obtain tid t where "map_of (timers s) tid = Some t" "t_clave t = k"
    by (auto simp: pending_for_def filter_empty_conv)
  with cache_inv_owned[OF assms(1)] show "map_of (cache s) k \<noteq> None"
    by (auto simp: owned_iff)
next
  assume "map_of (cache s) k \<noteq> None"
  then obtain en where en: "map_of (cache s) k = Some en" by auto
  with assms(2,3) obtain tid where "timeoutId en = Some tid"
    by (auto simp: tracked_def split: option.splits)
  with cache_inv_armed[OF assms(1) en]
  obtain t where p: "map_of (timers s) tid = Some t" "t_clave t = k"
    by (auto simp: armed_iff)
  then have "(tid, t) \<in> set (timers s)" by (auto dest: map_of_SomeD)
  with p show "pending_for s k \<noteq> []"
    by (auto simp: pending_for_def filter_empty_conv)
qed

lemma one_timer_per_key:
  assumes "cache_inv s"
  shows "card (set (pending_for s k)) \<le> 1"
proof -
  have "tid1 = tid2" if "tid1 \<in> set (pending_for s k)" "tid2 \<in> set (pending_for s k)"
    for tid1 tid2
  proof -
    from that obtain t1 t2 where
      p1: "map_of (timers s) tid1 = Some t1" "t_clave t1 = k" and
      p2: "map_of (timers s) tid2 = Some t2" "t_clave t2 = k"
      by (auto simp: pending_for_def)
    from cache_inv_owned[OF assms p1(1)] cache_inv_owned[OF assms p2(1)] p1(2) p2(2)
    show ?thesis by (auto simp: owned_iff)
  qed
  then show ?thesis by (metis card_le_Suc0_iff_eq One_nat_def List.finite_set)
qed

section \<open>C1: expiry as \<^verbatim>\<open>get\<close> sees it\<close>

text \<open>
  Counterexample to C1 as stated. A key is stored at clock 0 with a lifetime of 1000 ms and
  read at clock 1000, before its timer has run. Line 190 tests
  \<^verbatim>\<open>entrada.expiracion < ahora\<close>, which is false when both are 1000, so the read
  returns the value and counts a hit, where the claim requires a miss.
\<close>

theorem expiry_boundary_counterexample:
  "cache_get (JStr ''k'') (run [CacheSet (JStr ''k'') (JNum 7) (JNum 1000), Tick 1000] init) =
     Inr (JNum 7,
          \<lparr> listeners = [], next_fn = 0,
            trace = [Emitted ''cache:hit'' [JStr ''k'', JNum 7]],
            cache = [(''k'', \<lparr>valor = JNum 7, expiracion = 1000, timeoutId = Some 1\<rparr>)],
            hits = 1, misses = 0,
            timers = [(1, \<lparr>t_clave = ''k'', t_due = 1000\<rparr>)],
            next_timer = 2, now = 1000 \<rparr>)"
  by code_simp

text \<open>
  A lifetime above 2147483647 ms is outside what the amended claim covers: the platform
  arms such a timer for 1 ms, and once it has run the key is gone long before its
  expiry.
\<close>

lemma oversized_ttl_expires_early:
  "cache_get (JStr ''k'')
     (run [CacheSet (JStr ''k'') (JNum 7) (JNum 2147483648), Tick 40, TimerFire 1] init) =
     Inr (JNull,
          \<lparr> listeners = [], next_fn = 0,
            trace = [Emitted ''cache:miss'' [JStr ''k'']],
            cache = [], hits = 0, misses = 1, timers = [], next_timer = 2, now = 40 \<rparr>)"
  by code_simp

text \<open>
  C1, amended. A key is stored with a lifetime \<open>T\<close>, \<open>0 < T \<le> 2147483647\<close> (the
  longest delay the platform's timers keep), while the clock reads
  \<open>date_now s0\<close>; then anything happens except a write of that key (\<^verbatim>\<open>set\<close> or
  \<^verbatim>\<open>del\<close> of it, or \<^verbatim>\<open>clear\<close>): time passes, timers run, other keys are used, this
  key is read. A \<^verbatim>\<open>get\<close> of the key before \<open>date_now s0 + T\<close> returns the value and adds
  one hit; a \<^verbatim>\<open>get\<close> after \<open>date_now s0 + T\<close> returns \<^verbatim>\<open>null\<close> and adds one miss,
  whether or not the timer has run; exactly at \<open>date_now s0 + T\<close> it is a miss when the
  key's timer has already run and a hit when it is still pending.
\<close>

theorem expiry_correctness:
  assumes "cache_inv s0"
    and "cache_set (JStr k) v (JNum T) s0 = Inr s1"
    and "0 < T"
    and "T \<le> TIMEOUT_MAX"
    and "\<forall>op\<in>set ops. \<not> writes_key k op"
    and "s2 = run ops s1"
  shows "(date_now s2 < date_now s0 + T \<longrightarrow>
            (\<exists>s3. cache_get (JStr k) s2 = Inr (v, s3) \<and>
                  hits s3 = hits s2 + 1 \<and> misses s3 = misses s2)) \<and>
         (date_now s0 + T < date_now s2 \<longrightarrow>
            (\<exists>s3. cache_get (JStr k) s2 = Inr (JNull, s3) \<and>
                  misses s3 = misses s2 + 1 \<and> hits s3 = hits s2)) \<and>
         (date_now s2 = date_now s0 + T \<longrightarrow>
            (if pending_for s2 k = []
             then \<exists>s3. cache_get (JStr k) s2 = Inr (JNull, s3) \<and>
                       misses s3 = misses s2 + 1 \<and> hits s3 = hits s2
             else \<exists>s3. cache_get (JStr k) s2 = Inr (v, s3) \<and>
                       hits s3 = hits s2 + 1 \<and> misses s3 = misses s2))"
proof -
  let ?ex = "date_now s0 + T"
  have n: "normal_ttl (JNum T) = T" using assms(3) by (simp add: normal_ttl_def)
  have pos: "0 < ?ex" using assms(3) by (simp add: date_now_def)
  have inv1: "cache_inv s1" using assms(1,2) by (rule cache_inv_set)
  have dl: "timer_delay T = T" using assms(3,4) by (rule timer_delay_small)
  have tr1: "tracked k v ?ex ?ex s1" using tracked_after_set[OF assms(2)] assms(3) n dl by simp
  have inv2: "cache_inv s2" unfolding assms(6) using inv1 by (rule cache_inv_run)
  have tr2: "tracked k v ?ex ?ex s2"
    unfolding assms(6) using inv1 tr1 assms(5) by (rule tracked_run)
  have hit: "\<exists>s3. cache_get (JStr k) s2 = Inr (v, s3) \<and> hits s3 = hits s2 + 1 \<and>
                  misses s3 = misses s2"
    if "date_now s2 \<le> ?ex" "map_of (cache s2) k \<noteq> None"
  proof -
    from tracked_live[OF tr2 _ that(2)] that(1) obtain en where
      "live_entry s2 (JStr k) = Some en" "valor en = v" by blast
    with get_counts_hit[of s2 "JStr k" en] show ?thesis by simp
  qed
  have miss: "\<exists>s3. cache_get (JStr k) s2 = Inr (JNull, s3) \<and> misses s3 = misses s2 + 1 \<and>
                  hits s3 = hits s2"
    if "?ex < date_now s2 \<or> map_of (cache s2) k = None"
    using tracked_dead[OF tr2 pos that] by (rule get_counts_miss)
  have 1: "date_now s2 < ?ex \<longrightarrow> (\<exists>s3. cache_get (JStr k) s2 = Inr (v, s3) \<and>
                  hits s3 = hits s2 + 1 \<and> misses s3 = misses s2)"
    using hit tracked_present[OF tr2] by auto
  have 2: "?ex < date_now s2 \<longrightarrow> (\<exists>s3. cache_get (JStr k) s2 = Inr (JNull, s3) \<and>
                  misses s3 = misses s2 + 1 \<and> hits s3 = hits s2)"
    using miss by blast
  have 3: "date_now s2 = ?ex \<longrightarrow>
            (if pending_for s2 k = []
             then \<exists>s3. cache_get (JStr k) s2 = Inr (JNull, s3) \<and>
                       misses s3 = misses s2 + 1 \<and> hits s3 = hits s2
             else \<exists>s3. cache_get (JStr k) s2 = Inr (v, s3) \<and>
                       hits s3 = hits s2 + 1 \<and> misses s3 = misses s2)"
    using pending_iff_stored[OF inv2 tr2 pos] hit miss by auto
  from 1 2 3 show ?thesis by blast
qed

theorem expiry_correctness_witness:
  "cache_inv init \<and>
   cache_set (JStr ''k'') (JNum 7) (JNum 1000) init =
     Inr (step (CacheSet (JStr ''k'') (JNum 7) (JNum 1000)) init) \<and>
   (\<exists>s3. cache_get (JStr ''k'')
            (run [Tick 999, TimerFire 1]
               (step (CacheSet (JStr ''k'') (JNum 7) (JNum 1000)) init)) = Inr (JNum 7, s3)) \<and>
   (\<exists>s3. cache_get (JStr ''k'')
            (run [Tick 1000, TimerFire 1]
               (step (CacheSet (JStr ''k'') (JNum 7) (JNum 1000)) init)) = Inr (JNull, s3)) \<and>
   (\<exists>s3. cache_get (JStr ''k'')
            (run [Tick 1001]
               (step (CacheSet (JStr ''k'') (JNum 7) (JNum 1000)) init)) = Inr (JNull, s3))"
proof -
  let ?s1 = "step (CacheSet (JStr ''k'') (JNum 7) (JNum 1000)) init"
  have h1: "cache_inv init" by (rule cache_inv_init)
  have h2: "cache_set (JStr ''k'') (JNum 7) (JNum 1000) init = Inr ?s1" by code_simp
  have h3: "(0::int) < 1000" by simp
  have h4: "(1000::int) \<le> TIMEOUT_MAX" by (simp add: TIMEOUT_MAX_def)
  have a: "\<forall>op\<in>set [Tick 999, TimerFire 1]. \<not> writes_key ''k'' op" by simp
  have b: "\<forall>op\<in>set [Tick 1000, TimerFire 1]. \<not> writes_key ''k'' op" by simp
  have c: "\<forall>op\<in>set [Tick 1001]. \<not> writes_key ''k'' op" by simp
  have da: "date_now (run [Tick 999, TimerFire 1] ?s1) < date_now init + 1000" by code_simp
  have db: "date_now (run [Tick 1000, TimerFire 1] ?s1) = date_now init + 1000" by code_simp
  have pb: "pending_for (run [Tick 1000, TimerFire 1] ?s1) ''k'' = []" by code_simp
  have dc: "date_now init + 1000 < date_now (run [Tick 1001] ?s1)" by code_simp
  from expiry_correctness[OF h1 h2 h3 h4 a refl] da
  have A: "\<exists>s3. cache_get (JStr ''k'') (run [Tick 999, TimerFire 1] ?s1) = Inr (JNum 7, s3)"
    by blast
  from expiry_correctness[OF h1 h2 h3 h4 b refl] db pb
  have B: "\<exists>s3. cache_get (JStr ''k'') (run [Tick 1000, TimerFire 1] ?s1) = Inr (JNull, s3)"
    by auto
  from expiry_correctness[OF h1 h2 h3 h4 c refl] dc
  have C: "\<exists>s3. cache_get (JStr ''k'') (run [Tick 1001] ?s1) = Inr (JNull, s3)"
    by blast
  from h1 h2 A B C show ?thesis by blast
qed

section \<open>C2: one timer for a key\<close>

lemma set_cancels_old:
  assumes inv: "cache_inv s" and en: "map_of (cache s) k = Some en" "timeoutId en = Some tid"
    and ok: "cache_set (JStr k) v ttl s = Inr s'"
  shows "map_of (timers s') tid = None"
proof -
  from ok have k: "trim k \<noteq> []" by (auto simp: cache_set_def split: if_splits)
  from cache_inv_armed[OF inv en(1)] en(2) have lt: "tid < next_timer s"
    by (auto simp: armed_iff)
  have gone: "map_of (timers (limpiarEntrada k s)) tid = None"
    using en by (simp add: limpiar_timers)
  show ?thesis
  proof (cases "0 < normal_ttl ttl")
    case True
    with ok k lt gone show ?thesis by (auto simp: cache_set_timed alist_simps)
  next
    case False
    with ok k gone show ?thesis by (auto simp: cache_set_untimed)
  qed
qed

lemma del_cancels_old:
  assumes "map_of (cache s) k = Some en" "timeoutId en = Some tid"
  shows "cache_del (JStr k) s = (True, limpiarEntrada k s)"
    and "map_of (timers (limpiarEntrada k s)) tid = None"
  using assms by (simp_all add: cache_del_def limpiar_timers)

lemma clear_cancels_all:
  assumes "cache_inv s"
  shows "map_of (timers (cache_clear s)) tid = None"
  using clear_no_timers[OF assms] by (simp add: cache_clear_def Let_def)

text \<open>
  C2. In every state \<open>s\<close> that an execution reaches, and in every state after it, a key
  has at most one pending timer. When the entry of \<open>k\<close> holds a timer handle,
  \<^verbatim>\<open>set\<close> on \<open>k\<close>, \<^verbatim>\<open>del\<close> of \<open>k\<close> and \<^verbatim>\<open>clear\<close> each leave that timer
  cancelled. After \<^verbatim>\<open>set(k, v1, 1000)\<close> immediately followed by \<^verbatim>\<open>set(k, v2, 5000)\<close>,
  whatever timers run and whatever else happens short of writing \<open>k\<close> again, a
  \<^verbatim>\<open>get(k)\<close> issued more than 1000 ms and less than 5000 ms later returns \<open>v2\<close>.
\<close>

theorem no_orphan_timers:
  assumes "s = run ops0 init"
    and "trim k \<noteq> []"
    and "\<forall>op\<in>set ops. \<not> writes_key k op"
    and "s2 = run ops (run [CacheSet (JStr k) v1 (JNum 1000), CacheSet (JStr k) v2 (JNum 5000)] s)"
  shows "(\<forall>k'. card (set (pending_for s k')) \<le> 1) \<and>
         (\<forall>k'. card (set (pending_for s2 k')) \<le> 1) \<and>
         (\<forall>en tid. map_of (cache s) k = Some en \<and> timeoutId en = Some tid \<longrightarrow>
            (\<forall>v ttl. map_of (timers (step (CacheSet (JStr k) v ttl) s)) tid = None) \<and>
            cache_del (JStr k) s = (True, limpiarEntrada k s) \<and>
            map_of (timers (step (CacheDel (JStr k)) s)) tid = None \<and>
            map_of (timers (step CacheClear s)) tid = None) \<and>
         (date_now s + 1000 < date_now s2 \<and> date_now s2 < date_now s + 5000 \<longrightarrow>
            (\<exists>s3. cache_get (JStr k) s2 = Inr (v2, s3) \<and> hits s3 = hits s2 + 1 \<and>
                  misses s3 = misses s2))"
proof -
  have inv: "cache_inv s" unfolding assms(1) using cache_inv_init by (rule cache_inv_run)
  let ?sa = "step (CacheSet (JStr k) v1 (JNum 1000)) s"
  let ?sb = "step (CacheSet (JStr k) v2 (JNum 5000)) ?sa"
  have inva: "cache_inv ?sa" using inv by (rule cache_inv_step)
  have sb: "run [CacheSet (JStr k) v1 (JNum 1000), CacheSet (JStr k) v2 (JNum 5000)] s = ?sb"
    by (simp add: run_def)
  obtain s1 where s1: "cache_set (JStr k) v2 (JNum 5000) ?sa = Inr s1"
    using assms(2) by (cases "cache_set (JStr k) v2 (JNum 5000) ?sa")
      (auto simp: cache_set_error)
  then have sb1: "?sb = s1" by simp
  have now_a: "date_now ?sa = date_now s"
  proof (cases "cache_set (JStr k) v1 (JNum 1000) s")
    case (Inl e)
    then show ?thesis by simp
  next
    case (Inr w)
    with assms(2) show ?thesis
      by (auto simp add: cache_set_timed normal_ttl_def date_now_def)
  qed
  have inv2: "cache_inv s2" unfolding assms(4) using inv by (intro cache_inv_run)
  have 1: "\<forall>k'. card (set (pending_for s k')) \<le> 1" using one_timer_per_key[OF inv] by blast
  have 2: "\<forall>k'. card (set (pending_for s2 k')) \<le> 1" using one_timer_per_key[OF inv2] by blast
  have 3: "\<forall>en tid. map_of (cache s) k = Some en \<and> timeoutId en = Some tid \<longrightarrow>
            (\<forall>v ttl. map_of (timers (step (CacheSet (JStr k) v ttl) s)) tid = None) \<and>
            cache_del (JStr k) s = (True, limpiarEntrada k s) \<and>
            map_of (timers (step (CacheDel (JStr k)) s)) tid = None \<and>
            map_of (timers (step CacheClear s)) tid = None"
  proof (intro allI impI, elim conjE)
    fix en tid
    assume en: "map_of (cache s) k = Some en" "timeoutId en = Some tid"
    have a: "map_of (timers (step (CacheSet (JStr k) v ttl) s)) tid = None" for v ttl
    proof -
      obtain w where w: "cache_set (JStr k) v ttl s = Inr w"
        using assms(2) by (cases "cache_set (JStr k) v ttl s") (auto simp: cache_set_error)
      from set_cancels_old[OF inv en w] w show ?thesis by simp
    qed
    from a del_cancels_old[OF en] clear_cancels_all[OF inv]
    show "(\<forall>v ttl. map_of (timers (step (CacheSet (JStr k) v ttl) s)) tid = None) \<and>
            cache_del (JStr k) s = (True, limpiarEntrada k s) \<and>
            map_of (timers (step (CacheDel (JStr k)) s)) tid = None \<and>
            map_of (timers (step CacheClear s)) tid = None"
      by simp
  qed
  have 4: "date_now s + 1000 < date_now s2 \<and> date_now s2 < date_now s + 5000 \<longrightarrow>
            (\<exists>s3. cache_get (JStr k) s2 = Inr (v2, s3) \<and> hits s3 = hits s2 + 1 \<and>
                  misses s3 = misses s2)"
  proof
    assume t: "date_now s + 1000 < date_now s2 \<and> date_now s2 < date_now s + 5000"
    have tr1: "tracked k v2 (date_now ?sa + 5000) (date_now ?sa + 5000) s1"
      using tracked_after_set[OF s1] by (simp add: normal_ttl_def timer_delay_def TIMEOUT_MAX_def)
    have inv1: "cache_inv s1" using inva s1 by (rule cache_inv_set)
    have tr2: "tracked k v2 (date_now s + 5000) (date_now s + 5000) s2"
      unfolding assms(4) sb sb1 using inv1 tr1 assms(3) now_a by (intro tracked_run) simp_all
    from tracked_present[OF tr2] t have p: "map_of (cache s2) k \<noteq> None" by simp
    from tracked_live[OF tr2 _ p] t obtain en where
      "live_entry s2 (JStr k) = Some en" "valor en = v2" by auto
    with get_counts_hit[of s2 "JStr k" en]
    show "\<exists>s3. cache_get (JStr k) s2 = Inr (v2, s3) \<and> hits s3 = hits s2 + 1 \<and>
                  misses s3 = misses s2" by simp
  qed
  from 1 2 3 4 show ?thesis by blast
qed

theorem no_orphan_timers_witness:
  "trim ''k'' \<noteq> [] \<and>
   map_of (cache (run [CacheSet (JStr ''k'') (JNum 0) (JNum 300)] init)) ''k'' =
     Some \<lparr>valor = JNum 0, expiracion = 300, timeoutId = Some 1\<rparr> \<and>
   map_of (timers (step (CacheSet (JStr ''k'') (JNum 1) (JNum 1000))
              (run [CacheSet (JStr ''k'') (JNum 0) (JNum 300)] init))) 1 = None \<and>
   date_now (run [CacheSet (JStr ''k'') (JNum 0) (JNum 300)] init) + 1000
     < date_now (run [Tick 1000, TimerFire 1, TimerFire 2, TimerFire 3, Tick 500]
         (run [CacheSet (JStr ''k'') (JNum 1) (JNum 1000), CacheSet (JStr ''k'') (JNum 2) (JNum 5000)]
           (run [CacheSet (JStr ''k'') (JNum 0) (JNum 300)] init))) \<and>
   (\<exists>s3. cache_get (JStr ''k'')
       (run [Tick 1000, TimerFire 1, TimerFire 2, TimerFire 3, Tick 500]
         (run [CacheSet (JStr ''k'') (JNum 1) (JNum 1000), CacheSet (JStr ''k'') (JNum 2) (JNum 5000)]
           (run [CacheSet (JStr ''k'') (JNum 0) (JNum 300)] init))) = Inr (JNum 2, s3))"
proof -
  let ?s = "run [CacheSet (JStr ''k'') (JNum 0) (JNum 300)] init"
  let ?ops = "[Tick 1000, TimerFire 1, TimerFire 2, TimerFire 3, Tick 500]"
  let ?s2 = "run ?ops
     (run [CacheSet (JStr ''k'') (JNum 1) (JNum 1000), CacheSet (JStr ''k'') (JNum 2) (JNum 5000)] ?s)"
  have k: "trim ''k'' \<noteq> []" by code_simp
  have w: "\<forall>op\<in>set ?ops. \<not> writes_key ''k'' op" by simp
  have en: "map_of (cache ?s) ''k'' = Some \<lparr>valor = JNum 0, expiracion = 300, timeoutId = Some 1\<rparr>"
    by code_simp
  have t1: "date_now ?s + 1000 < date_now ?s2" by code_simp
  have t2: "date_now ?s2 < date_now ?s + 5000" by code_simp
  note r = no_orphan_timers[OF refl k w refl, of "[CacheSet (JStr ''k'') (JNum 0) (JNum 300)]"
      "JNum 1" "JNum 2"]
  from r en have A: "map_of (timers (step (CacheSet (JStr ''k'') (JNum 1) (JNum 1000)) ?s)) 1 = None"
    by simp
  from r t1 t2 have B: "\<exists>s3. cache_get (JStr ''k'') ?s2 = Inr (JNum 2, s3)" by blast
  from k en A t1 B show ?thesis by blast
qed

section \<open>C7: hits and misses\<close>

lemma cache_del_frame:
  "hits (snd (cache_del clave s)) = hits s"
  "misses (snd (cache_del clave s)) = misses s"
  "trace (snd (cache_del clave s)) = trace s"
  "listeners (snd (cache_del clave s)) = listeners s"
  "fst (cache_del clave s) = (cache_lookup s clave \<noteq> None)"
  by (auto simp: cache_del_def cache_lookup_def split: jsval.splits)

text \<open>
  C7. The initial store has no hits and no misses. A \<^verbatim>\<open>get\<close> always returns: when the
  key holds an entry that is not past its expiry it returns the entry's value, adds one
  to \<^verbatim>\<open>hits\<close> and leaves \<^verbatim>\<open>misses\<close>; otherwise (no entry, or an expired one) it returns
  \<^verbatim>\<open>null\<close>, adds one to \<^verbatim>\<open>misses\<close> and leaves \<^verbatim>\<open>hits\<close>. \<^verbatim>\<open>del\<close> changes neither
  counter, emits nothing (the trace and the registry are as before) and returns whether
  the key was stored. \<^verbatim>\<open>clear\<close> sets both counters to 0.
\<close>

theorem hit_miss_accounting:
  "hits init = 0 \<and> misses init = 0 \<and>
   (\<exists>v s'. cache_get clave s = Inr (v, s') \<and>
      (case live_entry s clave of
         Some entrada \<Rightarrow> v = valor entrada \<and> hits s' = hits s + 1 \<and> misses s' = misses s
       | None \<Rightarrow> v = JNull \<and> misses s' = misses s + 1 \<and> hits s' = hits s)) \<and>
   hits (snd (cache_del clave s)) = hits s \<and>
   misses (snd (cache_del clave s)) = misses s \<and>
   trace (snd (cache_del clave s)) = trace s \<and>
   listeners (snd (cache_del clave s)) = listeners s \<and>
   fst (cache_del clave s) = (cache_lookup s clave \<noteq> None) \<and>
   hits (cache_clear s) = 0 \<and> misses (cache_clear s) = 0"
proof -
  have g: "\<exists>v s'. cache_get clave s = Inr (v, s') \<and>
      (case live_entry s clave of
         Some entrada \<Rightarrow> v = valor entrada \<and> hits s' = hits s + 1 \<and> misses s' = misses s
       | None \<Rightarrow> v = JNull \<and> misses s' = misses s + 1 \<and> hits s' = hits s)"
  proof (cases "live_entry s clave")
    case None
    from get_counts_miss[OF None] None show ?thesis by auto
  next
    case (Some en)
    from get_counts_hit[OF Some] Some show ?thesis by auto
  qed
  have c: "hits (cache_clear s) = 0 \<and> misses (cache_clear s) = 0"
    by (simp add: cache_clear_def Let_def)
  have i: "hits init = 0 \<and> misses init = 0" by (simp add: init_def)
  from i g c cache_del_frame[of clave s] show ?thesis by simp
qed

theorem hit_miss_accounting_witness:
  "(\<exists>s'. cache_get (JStr ''a'') (run [CacheSet (JStr ''a'') (JStr ''v1'') (JNum 0)] init)
            = Inr (JStr ''v1'', s') \<and> hits s' = 1 \<and> misses s' = 0) \<and>
   (\<exists>s'. cache_get (JStr ''b'') (run [CacheSet (JStr ''b'') (JStr ''v2'') (JNum 100), Tick 150] init)
            = Inr (JNull, s') \<and> hits s' = 0 \<and> misses s' = 1) \<and>
   fst (cache_del (JStr ''a'') (run [CacheSet (JStr ''a'') (JStr ''v1'') (JNum 0)] init))"
proof -
  let ?sa = "run [CacheSet (JStr ''a'') (JStr ''v1'') (JNum 0)] init"
  let ?sb = "run [CacheSet (JStr ''b'') (JStr ''v2'') (JNum 100), Tick 150] init"
  have la: "live_entry ?sa (JStr ''a'') = Some \<lparr>valor = JStr ''v1'', expiracion = 0, timeoutId = None\<rparr>"
    by code_simp
  have lb: "live_entry ?sb (JStr ''b'') = None" by code_simp
  have ca: "hits ?sa = 0 \<and> misses ?sa = 0 \<and> cache_lookup ?sa (JStr ''a'') \<noteq> None" by code_simp
  have cb: "hits ?sb = 0 \<and> misses ?sb = 0" by code_simp
  from hit_miss_accounting[where clave = "JStr ''a''" and s = ?sa] la ca
  have A: "\<exists>s'. cache_get (JStr ''a'') ?sa = Inr (JStr ''v1'', s') \<and> hits s' = 1 \<and> misses s' = 0"
    by auto
  from hit_miss_accounting[where clave = "JStr ''a''" and s = ?sa] ca
  have D: "fst (cache_del (JStr ''a'') ?sa)" by simp
  from hit_miss_accounting[where clave = "JStr ''b''" and s = ?sb] lb cb
  have B: "\<exists>s'. cache_get (JStr ''b'') ?sb = Inr (JNull, s') \<and> hits s' = 0 \<and> misses s' = 1"
    by auto
  from A B D show ?thesis by blast
qed

section \<open>C8: the arguments of \<^verbatim>\<open>set\<close>\<close>

text \<open>
  Counterexample to C8 as stated. The key of one space is a string and is not empty, and
  \<^verbatim>\<open>set\<close> rejects it: line 144 tests \<^verbatim>\<open>clave.trim().length === 0\<close>.
\<close>

theorem blank_key_counterexample:
  "'' '' \<noteq> [] \<and> cache_set (JStr '' '') (JNum 1) (JNum 0) init = Inl InvalidArgument"
  by code_simp

lemma untimed_no_timer:
  assumes inv: "cache_inv s" and ok: "cache_set (JStr k) v ttl s = Inr s1"
    and z: "\<not> 0 < normal_ttl ttl"
  shows "pending_for s1 k = []" "next_timer s1 = next_timer s"
proof -
  from ok have k: "trim k \<noteq> []" by (auto simp: cache_set_def split: if_splits)
  have s1: "s1 = (limpiarEntrada k s)
                 \<lparr> cache := AList.update k \<lparr>valor = v, expiracion = 0, timeoutId = None\<rparr>
                              (cache (limpiarEntrada k s)) \<rparr>"
    using ok k z by (simp add: cache_set_untimed)
  show "next_timer s1 = next_timer s" by (simp add: s1)
  have inv1: "cache_inv s1" using inv ok by (rule cache_inv_set)
  show "pending_for s1 k = []"
  proof (rule ccontr)
    assume "pending_for s1 k \<noteq> []"
    then obtain tid t where p: "map_of (timers s1) tid = Some t" "t_clave t = k"
      by (auto simp: pending_for_def filter_empty_conv)
    from cache_inv_owned[OF inv1 p(1)] p(2) show False
      by (auto simp: owned_iff s1 alist_simps)
  qed
qed

text \<open>
  C8, amended. \<^verbatim>\<open>set\<close> raises exactly when the key is not a string or is blank (empty
  once white space is trimmed), and what it raises is the argument error. For a
  \<^verbatim>\<open>ttl\<close> that is not a number, or is negative, \<^verbatim>\<open>set\<close> does what it does for
  \<^verbatim>\<open>ttl = 0\<close>: when it succeeds on key \<open>k\<close> no timer was issued, none is pending for
  \<open>k\<close>, and after anything short of writing \<open>k\<close> again, at any later time, \<^verbatim>\<open>get(k)\<close>
  returns the value and adds one hit.
\<close>

theorem set_arguments:
  "((\<exists>err. cache_set clave v ttl s = Inl err) \<longleftrightarrow> (\<forall>k. clave = JStr k \<longrightarrow> trim k = [])) \<and>
   (\<forall>err. cache_set clave v ttl s = Inl err \<longrightarrow> err = InvalidArgument) \<and>
   ((\<forall>n. ttl = JNum n \<longrightarrow> n < 0) \<longrightarrow>
      cache_set clave v ttl s = cache_set clave v (JNum 0) s \<and>
      (\<forall>k s1. cache_inv s \<and> clave = JStr k \<and> cache_set clave v ttl s = Inr s1 \<longrightarrow>
         next_timer s1 = next_timer s \<and> pending_for s1 k = [] \<and>
         (\<forall>ops. (\<forall>op\<in>set ops. \<not> writes_key k op) \<longrightarrow>
            (\<exists>s3. cache_get (JStr k) (run ops s1) = Inr (v, s3) \<and>
                  hits s3 = hits (run ops s1) + 1 \<and> misses s3 = misses (run ops s1)))))"
proof -
  have 1: "(\<exists>err. cache_set clave v ttl s = Inl err) \<longleftrightarrow> (\<forall>k. clave = JStr k \<longrightarrow> trim k = [])"
    by (cases clave) (auto simp: cache_set_error)
  have 2: "\<forall>err. cache_set clave v ttl s = Inl err \<longrightarrow> err = InvalidArgument"
    by (simp add: cache_set_error)
  have 3: "cache_set clave v ttl s = cache_set clave v (JNum 0) s \<and>
      (\<forall>k s1. cache_inv s \<and> clave = JStr k \<and> cache_set clave v ttl s = Inr s1 \<longrightarrow>
         next_timer s1 = next_timer s \<and> pending_for s1 k = [] \<and>
         (\<forall>ops. (\<forall>op\<in>set ops. \<not> writes_key k op) \<longrightarrow>
            (\<exists>s3. cache_get (JStr k) (run ops s1) = Inr (v, s3) \<and>
                  hits s3 = hits (run ops s1) + 1 \<and> misses s3 = misses (run ops s1))))"
    if bad: "\<forall>n. ttl = JNum n \<longrightarrow> n < 0"
  proof -
    have z: "normal_ttl ttl = 0" using bad by (cases ttl) (auto simp: normal_ttl_def)
    have z0: "normal_ttl (JNum 0) = 0" by (simp add: normal_ttl_def)
    have a: "cache_set clave v ttl s = cache_set clave v (JNum 0) s"
      unfolding cache_set_def z z0 by (rule refl)
    have b: "next_timer s1 = next_timer s \<and> pending_for s1 k = [] \<and>
         (\<forall>ops. (\<forall>op\<in>set ops. \<not> writes_key k op) \<longrightarrow>
            (\<exists>s3. cache_get (JStr k) (run ops s1) = Inr (v, s3) \<and>
                  hits s3 = hits (run ops s1) + 1 \<and> misses s3 = misses (run ops s1)))"
      if h: "cache_inv s" "clave = JStr k" "cache_set clave v ttl s = Inr s1" for k s1
    proof -
      from h have ok: "cache_set (JStr k) v ttl s = Inr s1" by simp
      have nz: "\<not> 0 < normal_ttl ttl" using z by simp
      have inv1: "cache_inv s1" using h(1) ok by (rule cache_inv_set)
      have tr1: "tracked k v 0 0 s1" using tracked_after_set[OF ok] z by simp
      have c: "\<exists>s3. cache_get (JStr k) (run ops s1) = Inr (v, s3) \<and>
                  hits s3 = hits (run ops s1) + 1 \<and> misses s3 = misses (run ops s1)"
        if w: "\<forall>op\<in>set ops. \<not> writes_key k op" for ops
      proof -
        have tr2: "tracked k v 0 0 (run ops s1)" using inv1 tr1 w by (rule tracked_run)
        from tracked_present[OF tr2] have "map_of (cache (run ops s1)) k \<noteq> None" by simp
        from tracked_live[OF tr2 _ this] obtain en where
          "live_entry (run ops s1) (JStr k) = Some en" "valor en = v" by auto
        with get_counts_hit[of "run ops s1" "JStr k" en] show ?thesis by simp
      qed
      from untimed_no_timer[OF h(1) ok nz] c show ?thesis by blast
    qed
    from a b show ?thesis by blast
  qed
  from 1 2 3 show ?thesis by blast
qed

theorem set_arguments_witness:
  "cache_set (JNum 5) JNull (JNum 0) init = Inl InvalidArgument \<and>
   cache_set (JStr ''k'') (JNum 7) (JNum (- 5)) init = cache_set (JStr ''k'') (JNum 7) (JNum 0) init \<and>
   pending_for (step (CacheSet (JStr ''k'') (JNum 7) (JStr ''soon'')) init) ''k'' = [] \<and>
   (\<exists>s3. cache_get (JStr ''k'')
            (run [Tick 100000, TimerFire 1, CacheGet (JStr ''k'')]
               (step (CacheSet (JStr ''k'') (JNum 7) (JStr ''soon'')) init)) = Inr (JNum 7, s3))"
proof -
  let ?s1 = "step (CacheSet (JStr ''k'') (JNum 7) (JStr ''soon'')) init"
  have e: "\<exists>err. cache_set (JNum 5) JNull (JNum 0) init = Inl err"
    using set_arguments[where clave = "JNum 5" and v = JNull and ttl = "JNum 0" and s = init] by simp
  with set_arguments[where clave = "JNum 5" and v = JNull and ttl = "JNum 0" and s = init]
  have A: "cache_set (JNum 5) JNull (JNum 0) init = Inl InvalidArgument" by auto
  have B: "cache_set (JStr ''k'') (JNum 7) (JNum (- 5)) init =
           cache_set (JStr ''k'') (JNum 7) (JNum 0) init"
    using set_arguments[where clave = "JStr ''k''" and v = "JNum 7" and ttl = "JNum (- 5)" and s = init] by simp
  have ok: "cache_set (JStr ''k'') (JNum 7) (JStr ''soon'') init = Inr ?s1" by code_simp
  have w: "\<forall>op\<in>set [Tick 100000, TimerFire 1, CacheGet (JStr ''k'')]. \<not> writes_key ''k'' op"
    by simp
  have bad: "\<forall>n. JStr ''soon'' = JNum n \<longrightarrow> n < 0" by simp
  from set_arguments[where clave = "JStr ''k''" and v = "JNum 7" and ttl = "JStr ''soon''"
      and s = init] bad cache_inv_init ok
  have C: "pending_for ?s1 ''k'' = [] \<and>
         (\<forall>ops. (\<forall>op\<in>set ops. \<not> writes_key ''k'' op) \<longrightarrow>
            (\<exists>s3. cache_get (JStr ''k'') (run ops ?s1) = Inr (JNum 7, s3) \<and>
                  hits s3 = hits (run ops ?s1) + 1 \<and> misses s3 = misses (run ops ?s1)))"
    by blast
  with w have D: "\<exists>s3. cache_get (JStr ''k'')
            (run [Tick 100000, TimerFire 1, CacheGet (JStr ''k'')] ?s1) = Inr (JNum 7, s3)"
    by blast
  from A B C D show ?thesis by blast
qed

section \<open>C10: a stored \<^verbatim>\<open>null\<close>\<close>

lemma get_hit_trace:
  assumes "live_entry s clave = Some en"
  shows "\<exists>s' tl. cache_get clave s = Inr (valor en, s') \<and> hits s' = hits s + 1 \<and>
           misses s' = misses s \<and>
           trace s' = trace s @ Emitted ''cache:hit'' [clave, valor en] # tl \<and>
           (\<forall>ev\<in>set tl. \<not> is_Emitted ev)"
proof -
  from cache_get_hit[OF assms] obtain s' where
    g: "cache_get clave s = Inr (valor en, s')" and
    e: "emit (JStr ''cache:hit'') [clave, valor en] (s\<lparr>hits := hits s + 1\<rparr>) = Inr s'" by blast
  from trace_emit[OF e] obtain tl where
    "trace s' = trace s @ Emitted ''cache:hit'' [clave, valor en] # tl"
    "\<forall>ev\<in>set tl. \<not> is_Emitted ev" by auto
  moreover from get_counts_hit[OF assms] g
  have "hits s' = hits s + 1 \<and> misses s' = misses s" by simp
  ultimately show ?thesis using g by blast
qed

lemma get_miss_trace:
  assumes "live_entry s clave = None"
  shows "\<exists>s' tl. cache_get clave s = Inr (JNull, s') \<and> misses s' = misses s + 1 \<and>
           hits s' = hits s \<and>
           trace s' = trace s @ Emitted ''cache:miss'' [clave] # tl \<and>
           (\<forall>ev\<in>set tl. \<not> is_Emitted ev)"
proof -
  let ?s0 = "case clave of JStr k \<Rightarrow> limpiarEntrada k s | _ \<Rightarrow> s"
  from cache_get_miss[OF assms] obtain s' where
    g: "cache_get clave s = Inr (JNull, s')" and
    e: "emit (JStr ''cache:miss'') [clave] (?s0\<lparr>misses := misses s + 1\<rparr>) = Inr s'" by blast
  have t0: "trace ?s0 = trace s" by (simp split: jsval.splits)
  from trace_emit[OF e] t0 obtain tl where
    "trace s' = trace s @ Emitted ''cache:miss'' [clave] # tl"
    "\<forall>ev\<in>set tl. \<not> is_Emitted ev" by auto
  moreover from get_counts_miss[OF assms] g
  have "misses s' = misses s + 1 \<and> hits s' = hits s" by simp
  ultimately show ?thesis using g by blast
qed

text \<open>
  C10. After \<^verbatim>\<open>set(k, null, 0)\<close>, \<^verbatim>\<open>get(k)\<close> returns \<^verbatim>\<open>null\<close>, adds one hit and emits
  \<^verbatim>\<open>cache:hit\<close> with the key and \<^verbatim>\<open>null\<close>. A \<^verbatim>\<open>get\<close> of a key that is not stored returns
  the same \<^verbatim>\<open>null\<close>, adds one miss and emits \<^verbatim>\<open>cache:miss\<close>. In both cases that emission is
  the only one of the call. The returned values are equal; the counters and the event
  differ.
\<close>

theorem stored_null_reads_as_miss:
  "(cache_set (JStr k) JNull (JNum 0) s = Inr s1 \<longrightarrow>
      (\<exists>s2 tl. cache_get (JStr k) s1 = Inr (JNull, s2) \<and>
         hits s2 = hits s1 + 1 \<and> misses s2 = misses s1 \<and>
         trace s2 = trace s1 @ Emitted ''cache:hit'' [JStr k, JNull] # tl \<and>
         (\<forall>ev\<in>set tl. \<not> is_Emitted ev))) \<and>
   (cache_lookup s clave = None \<longrightarrow>
      (\<exists>s2 tl. cache_get clave s = Inr (JNull, s2) \<and>
         misses s2 = misses s + 1 \<and> hits s2 = hits s \<and>
         trace s2 = trace s @ Emitted ''cache:miss'' [clave] # tl \<and>
         (\<forall>ev\<in>set tl. \<not> is_Emitted ev)))"
proof -
  have 1: "\<exists>s2 tl. cache_get (JStr k) s1 = Inr (JNull, s2) \<and>
         hits s2 = hits s1 + 1 \<and> misses s2 = misses s1 \<and>
         trace s2 = trace s1 @ Emitted ''cache:hit'' [JStr k, JNull] # tl \<and>
         (\<forall>ev\<in>set tl. \<not> is_Emitted ev)"
    if ok: "cache_set (JStr k) JNull (JNum 0) s = Inr s1"
  proof -
    have tr: "tracked k JNull 0 0 s1"
      using tracked_after_set[OF ok] by (simp add: normal_ttl_def)
    from tracked_present[OF tr] have "map_of (cache s1) k \<noteq> None" by simp
    from tracked_live[OF tr _ this] obtain en where
      en: "live_entry s1 (JStr k) = Some en" "valor en = JNull" by auto
    from get_hit_trace[OF en(1)] en(2) show ?thesis by simp
  qed
  have 2: "\<exists>s2 tl. cache_get clave s = Inr (JNull, s2) \<and>
         misses s2 = misses s + 1 \<and> hits s2 = hits s \<and>
         trace s2 = trace s @ Emitted ''cache:miss'' [clave] # tl \<and>
         (\<forall>ev\<in>set tl. \<not> is_Emitted ev)"
    if "cache_lookup s clave = None"
  proof -
    from that have "live_entry s clave = None" by (simp add: live_entry_def)
    then show ?thesis by (rule get_miss_trace)
  qed
  from 1 2 show ?thesis by blast
qed

theorem stored_null_reads_as_miss_witness:
  "(\<exists>s2 tl. cache_get (JStr ''k'') (step (CacheSet (JStr ''k'') JNull (JNum 0)) init)
               = Inr (JNull, s2) \<and> hits s2 = 1 \<and> misses s2 = 0 \<and>
             trace s2 = Emitted ''cache:hit'' [JStr ''k'', JNull] # tl) \<and>
   (\<exists>s2 tl. cache_get (JStr ''k'') init = Inr (JNull, s2) \<and> hits s2 = 0 \<and> misses s2 = 1 \<and>
             trace s2 = Emitted ''cache:miss'' [JStr ''k''] # tl)"
proof -
  let ?s1 = "step (CacheSet (JStr ''k'') JNull (JNum 0)) init"
  have ok: "cache_set (JStr ''k'') JNull (JNum 0) init = Inr ?s1" by code_simp
  have c1: "hits ?s1 = 0" "misses ?s1 = 0" "trace ?s1 = []" by code_simp+
  have c0: "hits init = 0" "misses init = 0" "trace init = []" by code_simp+
  have l0: "cache_lookup init (JStr ''k'') = None" by code_simp
  note r = stored_null_reads_as_miss[where k = "''k''" and s = init and ?s1.0 = ?s1
      and clave = "JStr ''k''"]
  from r ok obtain s2 tl where
    "cache_get (JStr ''k'') ?s1 = Inr (JNull, s2)" "hits s2 = hits ?s1 + 1"
    "misses s2 = misses ?s1" "trace s2 = trace ?s1 @ Emitted ''cache:hit'' [JStr ''k'', JNull] # tl"
    by blast
  then have A: "\<exists>s2 tl. cache_get (JStr ''k'') ?s1 = Inr (JNull, s2) \<and> hits s2 = 1 \<and>
             misses s2 = 0 \<and> trace s2 = Emitted ''cache:hit'' [JStr ''k'', JNull] # tl"
    unfolding c1 by (intro exI[of _ s2] exI[of _ tl]) simp
  from r l0 obtain s2 tl where
    "cache_get (JStr ''k'') init = Inr (JNull, s2)" "misses s2 = misses init + 1"
    "hits s2 = hits init" "trace s2 = trace init @ Emitted ''cache:miss'' [JStr ''k''] # tl"
    by blast
  then have B: "\<exists>s2 tl. cache_get (JStr ''k'') init = Inr (JNull, s2) \<and> hits s2 = 0 \<and>
             misses s2 = 1 \<and> trace s2 = Emitted ''cache:miss'' [JStr ''k''] # tl"
    unfolding c0 by (intro exI[of _ s2] exI[of _ tl]) simp
  from A B show ?thesis by blast
qed

section \<open>Sets of subscribers\<close>

lemma live_simps [simp]:
  "live [] = []"
  "live (None # cbs) = live cbs"
  "live (Some cb # cbs) = cb # live cbs"
  by (simp_all add: live_def map_filter_simps)

lemma live_append [simp]: "live (xs @ ys) = live xs @ live ys"
  by (induction xs) (auto split: option.splits simp: live_def map_filter_simps)

lemma set_live: "set (live cbs) = {x. Some x \<in> set cbs}"
proof (induction cbs)
  case Nil
  show ?case by simp
next
  case (Cons x cbs)
  then show ?case by (cases x) auto
qed

lemma live_set_delete: "live (set_delete cb cbs) = filter (\<lambda>x. x \<noteq> cb) (live cbs)"
proof (induction cbs)
  case Nil
  show ?case by (simp add: set_delete_def)
next
  case (Cons x cbs)
  then show ?case by (cases x) (auto simp: set_delete_def)
qed

lemma set_delete_absent: "Some cb \<notin> set cbs \<Longrightarrow> set_delete cb cbs = cbs"
  by (auto simp: set_delete_def intro: map_idI)

lemma drop_set_delete: "drop n (set_delete cb cbs) = set_delete cb (drop n cbs)"
  by (simp add: set_delete_def drop_map)

lemma live_set_add:
  "live (set_add cb cbs) = (if cb \<in> set (live cbs) then live cbs else live cbs @ [cb])"
  by (simp add: set_add_def set_live)

text \<open>Unsubscribing in the registry, as \<^verbatim>\<open>off\<close> and the removers do it.\<close>

lemma listeners_off:
  "map_of (listeners (off (JStr e') (JFun f) s)) e =
     (if e = e' then map_option (set_delete (Plain f)) (map_of (listeners s) e)
      else map_of (listeners s) e)"
  by (auto simp: off_def alist_simps split: option.splits)

lemma listeners_remover:
  assumes "run_remover (Remover e' cb) s = Inr s'"
  shows "map_of (listeners s') e =
     (if e = e' then map_option (set_delete cb) (map_of (listeners s) e)
      else map_of (listeners s) e)"
  using assms by (auto simp: alist_simps split: option.splits)

lemma remover_raises_iff:
  "run_remover (Remover e cb) s = Inl err \<longleftrightarrow> err = TypeError \<and> map_of (listeners s) e = None"
  by (auto split: option.splits)

lemma listeners_call_ufun:
  "map_of (listeners (snd (call_ufun (UFun n b) datos s))) e =
     (if b = Unsubscribes e then map_option (set_delete (Plain (UFun n b))) (map_of (listeners s) e)
      else map_of (listeners s) e)"
  by (cases b) (auto simp: call_ufun_def Let_def listeners_off)

lemma call_ufun_result:
  "fst (call_ufun (UFun n b) datos s) = (if b = Throws then Some UserThrown else None)"
  by (cases b) (auto simp: call_ufun_def Let_def)

lemma invoke_own_slot:
  assumes "own_slot_only e cb"
  shows "map_of (listeners (snd (invoke cb datos s))) e = map_of (listeners s) e \<or>
         map_of (listeners (snd (invoke cb datos s))) e =
           map_option (set_delete cb) (map_of (listeners s) e)"
proof (cases cb)
  case (Plain f)
  obtain n b where f: "f = UFun n b" by (cases f)
  show ?thesis unfolding Plain f by (simp add: listeners_call_ufun)
next
  case (OnceWrapper i ev f)
  obtain n b where f: "f = UFun n b" by (cases f)
  from assms have nb: "b \<noteq> Unsubscribes e" by (simp add: OnceWrapper f)
  obtain r s1 where c: "call_ufun (UFun n b) datos s = (r, s1)"
    by (cases "call_ufun (UFun n b) datos s")
  have l1: "map_of (listeners s1) e = map_of (listeners s) e"
    using listeners_call_ufun[of n b datos s e] c nb by simp
  show ?thesis
  proof (cases r)
    case (Some err)
    with c l1 show ?thesis by (simp add: OnceWrapper f)
  next
    case None
    show ?thesis
    proof (cases "run_remover (Remover ev (OnceWrapper i ev (UFun n b))) s1")
      case (Inl err)
      with c None l1 show ?thesis by (simp add: OnceWrapper f del: run_remover.simps)
    next
      case (Inr s2)
      from listeners_remover[OF Inr, of e] l1 c None Inr show ?thesis
        by (auto simp add: OnceWrapper f simp del: run_remover.simps)
    qed
  qed
qed

lemma invoke_self_removing:
  assumes "own_slot_only e cb" "self_removing e cb"
  shows "map_of (listeners (snd (invoke cb datos s))) e =
           map_option (set_delete cb) (map_of (listeners s) e)"
proof (cases cb)
  case (Plain f)
  obtain n b where f: "f = UFun n b" by (cases f)
  from assms(2) show ?thesis unfolding Plain f by (simp add: listeners_call_ufun)
next
  case (OnceWrapper i ev f)
  obtain n b where f: "f = UFun n b" by (cases f)
  from assms have nb: "b \<noteq> Unsubscribes e" "b \<noteq> Throws" "ev = e"
    by (simp_all add: OnceWrapper f)
  obtain r s1 where c: "call_ufun (UFun n b) datos s = (r, s1)"
    by (cases "call_ufun (UFun n b) datos s")
  have l1: "map_of (listeners s1) e = map_of (listeners s) e"
    using listeners_call_ufun[of n b datos s e] c nb by simp
  have r: "r = None" using call_ufun_result[of n b datos s] c nb by simp
  show ?thesis
  proof (cases "run_remover (Remover ev (OnceWrapper i ev (UFun n b))) s1")
    case (Inl err)
    then have "map_of (listeners s1) e = None"
      using nb(3) remover_raises_iff[of ev "OnceWrapper i ev (UFun n b)" s1 err] by blast
    with Inl c r l1 show ?thesis by (simp add: OnceWrapper f del: run_remover.simps)
  next
    case (Inr s2)
    from listeners_remover[OF Inr, of e] l1 c r Inr nb(3) show ?thesis
      by (auto simp add: OnceWrapper f simp del: run_remover.simps)
  qed
qed

lemma listeners_dispatch:
  "listeners (dispatch e cb datos s) =
     listeners (snd (invoke cb datos (s\<lparr>trace := trace s @ [Delivered e cb datos]\<rparr>)))"
  by (simp add: dispatch_def split: prod.splits option.splits)

lemma dispatch_own_slot:
  assumes "own_slot_only e cb" "map_of (listeners s) e = Some cbs"
  shows "map_of (listeners (dispatch e cb datos s)) e = Some cbs \<or>
         map_of (listeners (dispatch e cb datos s)) e = Some (set_delete cb cbs)"
  using invoke_own_slot[OF assms(1), of datos "s\<lparr>trace := trace s @ [Delivered e cb datos]\<rparr>"]
    assms(2) by (simp add: listeners_dispatch)

lemma dispatch_self_removing:
  assumes "own_slot_only e cb" "self_removing e cb" "map_of (listeners s) e = Some cbs"
  shows "map_of (listeners (dispatch e cb datos s)) e = Some (set_delete cb cbs)"
  using invoke_self_removing[OF assms(1,2), of datos
      "s\<lparr>trace := trace s @ [Delivered e cb datos]\<rparr>"] assms(3)
  by (simp add: listeners_dispatch)

lemma subscribers_trace [simp]: "subscribers (s\<lparr>trace := t\<rparr>) ev = subscribers s ev"
  by (simp add: subscribers_def)

lemma subscribers_cong:
  "map_of (listeners s') ev = map_of (listeners s) ev \<Longrightarrow> subscribers s' ev = subscribers s ev"
  by (simp add: subscribers_def)

lemma subscribers_deleted:
  "map_of (listeners s') ev = map_option (set_delete cb) (map_of (listeners s) ev) \<Longrightarrow>
   subscribers s' ev = filter (\<lambda>x. x \<noteq> cb) (subscribers s ev)"
  by (cases "map_of (listeners s) ev") (simp_all add: subscribers_def live_set_delete)

lemma filter_id_ex: "\<exists>p. xs = filter p xs"
  by (rule exI[of _ "\<lambda>_. True"]) simp

lemma shrink_off: "\<exists>p. subscribers (off a b s) ev = filter p (subscribers s ev)"
proof (cases "\<exists>e f. a = JStr e \<and> b = JFun f")
  case True
  then obtain e f where ab: "a = JStr e" "b = JFun f" by blast
  show ?thesis
  proof (cases "ev = e")
    case True
    have "subscribers (off a b s) ev = filter (\<lambda>x. x \<noteq> Plain f) (subscribers s ev)"
      by (rule subscribers_deleted) (simp add: ab listeners_off True)
    then show ?thesis by blast
  next
    case False
    have "subscribers (off a b s) ev = subscribers s ev"
      by (rule subscribers_cong) (simp add: ab listeners_off False)
    then show ?thesis using filter_id_ex by metis
  qed
next
  case False
  then have "off a b s = s" by (auto simp: off_def split: jsval.splits option.splits)
  then show ?thesis using filter_id_ex by metis
qed

lemma shrink_remover:
  assumes "run_remover r s = Inr s'"
  shows "\<exists>p. subscribers s' ev = filter p (subscribers s ev)"
proof -
  obtain e cb where r: "r = Remover e cb" by (cases r)
  show ?thesis
  proof (cases "ev = e")
    case True
    have "subscribers s' ev = filter (\<lambda>x. x \<noteq> cb) (subscribers s ev)"
      by (rule subscribers_deleted) (simp add: listeners_remover[OF assms[unfolded r]] True)
    then show ?thesis by blast
  next
    case False
    have "subscribers s' ev = subscribers s ev"
      by (rule subscribers_cong) (simp add: listeners_remover[OF assms[unfolded r]] False)
    then show ?thesis using filter_id_ex by metis
  qed
qed

lemma filter_filter_ex:
  "\<exists>p. ys = filter p xs \<Longrightarrow> \<exists>q. zs = filter q ys \<Longrightarrow> \<exists>r. zs = filter r xs"
  by (metis filter_filter)

lemma shrink_call_ufun:
  "\<exists>p. subscribers (snd (call_ufun f datos s)) ev = filter p (subscribers s ev)"
proof -
  obtain n b where f: "f = UFun n b" by (cases f)
  show ?thesis
  proof (cases b)
    case Returns
    then show ?thesis using filter_id_ex[of "subscribers s ev"]
      by (simp add: f call_ufun_def Let_def)
  next
    case Throws
    then show ?thesis using filter_id_ex[of "subscribers s ev"]
      by (simp add: f call_ufun_def Let_def)
  next
    case (Unsubscribes e)
    then show ?thesis
      using shrink_off[of "JStr e" "JFun f" "s\<lparr>trace := trace s @ [Called f datos]\<rparr>" ev]
      by (simp add: f call_ufun_def Let_def)
  qed
qed

lemma shrink_invoke:
  "\<exists>p. subscribers (snd (invoke cb datos s)) ev = filter p (subscribers s ev)"
proof (cases cb)
  case (Plain f)
  then show ?thesis by (simp add: shrink_call_ufun)
next
  case (OnceWrapper i e f)
  obtain r s1 where c: "call_ufun f datos s = (r, s1)" by (cases "call_ufun f datos s")
  have 1: "\<exists>p. subscribers s1 ev = filter p (subscribers s ev)"
    using shrink_call_ufun[of f datos s ev] c by simp
  show ?thesis
  proof (cases r)
    case (Some err)
    with c 1 show ?thesis by (simp add: OnceWrapper)
  next
    case None
    show ?thesis
    proof (cases "run_remover (Remover e (OnceWrapper i e f)) s1")
      case (Inl err)
      with c None 1 show ?thesis by (simp add: OnceWrapper del: run_remover.simps)
    next
      case (Inr s2)
      from shrink_remover[OF Inr, of ev] 1
      have "\<exists>p. subscribers s2 ev = filter p (subscribers s ev)" by (rule filter_filter_ex[rotated])
      with c None Inr show ?thesis by (simp add: OnceWrapper del: run_remover.simps)
    qed
  qed
qed

lemma subscribers_dispatch:
  "subscribers (dispatch e cb datos s) ev =
     subscribers (snd (invoke cb datos (s\<lparr>trace := trace s @ [Delivered e cb datos]\<rparr>))) ev"
  by (simp add: subscribers_def listeners_dispatch)

lemma shrink_dispatch:
  "\<exists>p. subscribers (dispatch e cb datos s) ev = filter p (subscribers s ev)"
  using shrink_invoke[of cb datos "s\<lparr>trace := trace s @ [Delivered e cb datos]\<rparr>" ev]
  by (simp add: subscribers_dispatch)

lemma shrink_forEach:
  "\<exists>p. subscribers (forEach_from e datos i s) ev = filter p (subscribers s ev)"
proof (rule forEach_rel[where R = "\<lambda>s s'. \<exists>p. subscribers s' ev = filter p (subscribers s ev)"])
  show "\<And>s. \<exists>p. subscribers s ev = filter p (subscribers s ev)" by (rule filter_id_ex)
next
  fix a b c :: world
  assume "\<exists>p. subscribers b ev = filter p (subscribers a ev)"
    and "\<exists>p. subscribers c ev = filter p (subscribers b ev)"
  then show "\<exists>p. subscribers c ev = filter p (subscribers a ev)" by (rule filter_filter_ex)
next
  fix cb s
  show "\<exists>p. subscribers (dispatch e cb datos s) ev = filter p (subscribers s ev)"
    by (rule shrink_dispatch)
qed

lemma shrink_emit:
  assumes "emit a datos s = Inr s'"
  shows "\<exists>p. subscribers s' ev = filter p (subscribers s ev)"
proof -
  from assms obtain e where e: "a = JStr e" by (auto simp: emit_def split: jsval.splits)
  let ?s1 = "s\<lparr>trace := trace s @ [Emitted e datos]\<rparr>"
  show ?thesis
  proof (cases "map_of (listeners s) e")
    case None
    with assms e have "s' = ?s1" by (simp add: emit_def Let_def)
    then show ?thesis using filter_id_ex[of "subscribers s ev"] by simp
  next
    case (Some cbs)
    with assms e have "s' = forEach_from e datos 0 ?s1" by (simp add: emit_def Let_def)
    then show ?thesis using shrink_forEach[of e datos 0 ?s1 ev] by simp
  qed
qed

text \<open>The deliveries of one walk over the Set, from position \<open>i\<close> on.\<close>

lemma forEach_deliveries:
  assumes "map_of (listeners s) e = Some cbs"
    and "distinct (live (drop i cbs))"
    and "\<forall>cb\<in>set (live (drop i cbs)). own_slot_only e cb"
  shows "deliveries (trace (forEach_from e datos i s)) =
           deliveries (trace s) @ map (\<lambda>cb. Delivered e cb datos) (live (drop i cbs)) \<and>
         (\<forall>a\<in>set (live (drop i cbs)).
             self_removing e a \<longrightarrow> a \<notin> set (subscribers (forEach_from e datos i s) e))"
  using assms
proof (induction e datos i s arbitrary: cbs rule: forEach_from.induct)
  case (1 evento datos i s)
  note lst = \<open>map_of (listeners s) evento = Some cbs\<close>
  show ?case
  proof (cases "i < length cbs")
    case False
    with lst show ?thesis by (simp add: forEach_from.simps[of evento datos i s])
  next
    case True
    then have dr: "drop i cbs = cbs ! i # drop (Suc i) cbs" by (simp add: Cons_nth_drop_Suc)
    show ?thesis
    proof (cases "cbs ! i")
      case None
      have "deliveries (trace (forEach_from evento datos (Suc i) s)) =
           deliveries (trace s) @ map (\<lambda>cb. Delivered evento cb datos) (live (drop (Suc i) cbs)) \<and>
         (\<forall>a\<in>set (live (drop (Suc i) cbs)).
             self_removing evento a \<longrightarrow>
             a \<notin> set (subscribers (forEach_from evento datos (Suc i) s) evento))"
        using "1.IH"(1)[OF lst True None lst] "1.prems"(2,3) dr None by simp
      with lst True None dr show ?thesis
        by (simp add: forEach_from.simps[of evento datos i s])
    next
      case (Some cb)
      let ?s' = "dispatch evento cb datos s"
      from "1.prems"(2,3) dr Some have
        fresh: "cb \<notin> set (live (drop (Suc i) cbs))" and
        dist: "distinct (live (drop (Suc i) cbs))" and
        own: "own_slot_only evento cb" and
        owns: "\<forall>c\<in>set (live (drop (Suc i) cbs)). own_slot_only evento c"
        by simp_all
      from fresh have absent: "Some cb \<notin> set (drop (Suc i) cbs)" by (simp add: set_live)
      from dispatch_own_slot[OF own lst, of datos] obtain cbs' where
        lst': "map_of (listeners ?s') evento = Some cbs'" and
        alt: "cbs' = cbs \<or> cbs' = set_delete cb cbs" by blast
      have same: "drop (Suc i) cbs' = drop (Suc i) cbs"
        using alt absent by (auto simp: drop_set_delete set_delete_absent)
      have IH: "deliveries (trace (forEach_from evento datos (Suc i) ?s')) =
           deliveries (trace ?s') @ map (\<lambda>cb. Delivered evento cb datos) (live (drop (Suc i) cbs)) \<and>
         (\<forall>a\<in>set (live (drop (Suc i) cbs)).
             self_removing evento a \<longrightarrow>
             a \<notin> set (subscribers (forEach_from evento datos (Suc i) ?s') evento))"
        using "1.IH"(2)[OF lst True Some lst'] dist owns same by simp
      have step: "forEach_from evento datos i s = forEach_from evento datos (Suc i) ?s'"
        using lst True Some by (simp add: forEach_from.simps[of evento datos i s])
      have gone: "cb \<notin> set (subscribers (forEach_from evento datos (Suc i) ?s') evento)"
        if sr: "self_removing evento cb"
      proof -
        from dispatch_self_removing[OF own sr lst, of datos]
        have "subscribers ?s' evento = filter (\<lambda>x. x \<noteq> cb) (live cbs)"
          by (simp add: subscribers_def live_set_delete)
        then have "cb \<notin> set (subscribers ?s' evento)" by simp
        moreover from shrink_forEach[of evento datos "Suc i" ?s' evento]
        have "set (subscribers (forEach_from evento datos (Suc i) ?s') evento)
                \<subseteq> set (subscribers ?s' evento)" by auto
        ultimately show ?thesis by blast
      qed
      show ?thesis
        unfolding step using IH gone dr Some
        by (auto simp: deliveries_dispatch)
    qed
  qed
qed

lemma emit_deliveries:
  assumes "distinct (subscribers s e)"
    and "\<forall>cb\<in>set (subscribers s e). own_slot_only e cb"
  shows "\<exists>s'. emit (JStr e) datos s = Inr s' \<and>
           deliveries (new_events s s') = map (\<lambda>cb. Delivered e cb datos) (subscribers s e) \<and>
           (\<forall>a\<in>set (subscribers s e). self_removing e a \<longrightarrow> a \<notin> set (subscribers s' e))"
proof (cases "map_of (listeners s) e")
  case None
  then show ?thesis
    by (simp add: emit_def Let_def subscribers_def new_events_def deliveries_def)
next
  case (Some cbs)
  let ?s1 = "s\<lparr>trace := trace s @ [Emitted e datos]\<rparr>"
  let ?s' = "forEach_from e datos 0 ?s1"
  have em: "emit (JStr e) datos s = Inr ?s'" using Some by (simp add: emit_def Let_def)
  have l1: "map_of (listeners ?s1) e = Some cbs" using Some by simp
  have sub: "subscribers s e = live cbs" using Some by (simp add: subscribers_def)
  from forEach_deliveries[OF l1, of 0 datos] assms sub
  have d: "deliveries (trace ?s') =
           deliveries (trace ?s1) @ map (\<lambda>cb. Delivered e cb datos) (live cbs)"
    and g: "\<forall>a\<in>set (live cbs). self_removing e a \<longrightarrow> a \<notin> set (subscribers ?s' e)"
    by simp_all
  from trace_emit[OF em] obtain tl where tl: "trace ?s' = trace s @ Emitted e datos # tl"
    by blast
  then have ne: "new_events s ?s' = Emitted e datos # tl" by (simp add: new_events_def)
  from d tl have "deliveries (new_events s ?s') = map (\<lambda>cb. Delivered e cb datos) (live cbs)"
    unfolding ne by (simp add: deliveries_def)
  with em g sub show ?thesis by simp
qed

lemma dispatch_trace:
  assumes "map_of (listeners s) e \<noteq> None" "placed e cb"
  shows "trace (dispatch e cb datos s) = trace s @ reaction e cb datos"
proof -
  let ?s0 = "s\<lparr>trace := trace s @ [Delivered e cb datos]\<rparr>"
  obtain n b where w: "wrapped cb = UFun n b" by (cases "wrapped cb")
  obtain r s1 where c: "call_ufun (UFun n b) datos ?s0 = (r, s1)"
    by (cases "call_ufun (UFun n b) datos ?s0")
  have t1: "trace s1 = trace s @ [Delivered e cb datos, Called (UFun n b) datos]"
    using trace_call_ufun[of "UFun n b" datos ?s0] c by simp
  have r: "r = (if b = Throws then Some UserThrown else None)"
    using call_ufun_result[of n b datos ?s0] c by simp
  show ?thesis
  proof (cases cb)
    case (Plain f)
    with w have f: "f = UFun n b" by simp
    show ?thesis
      using c t1 r by (auto simp: Plain f dispatch_def reaction_def)
  next
    case (OnceWrapper i ev f)
    with w assms(2) have f: "f = UFun n b" and ev: "ev = e" by simp_all
    show ?thesis
    proof (cases "b = Throws")
      case True
      with c t1 r show ?thesis
        by (simp add: OnceWrapper f dispatch_def reaction_def del: run_remover.simps)
    next
      case False
      have "map_of (listeners s1) e \<noteq> None"
        using listeners_call_ufun[of n b datos ?s0 e] c assms(1) by auto
      then obtain s2 where rm: "run_remover (Remover e (OnceWrapper i e (UFun n b))) s1 = Inr s2"
        by (auto split: option.splits)
      from trace_remover[OF rm] have t2: "trace s2 = trace s1" .
      from False c t1 r rm t2 show ?thesis
        by (simp add: OnceWrapper f ev dispatch_def reaction_def del: run_remover.simps)
    qed
  qed
qed

text \<open>The whole trace of one walk over the Set, from position \<open>i\<close> on.\<close>

lemma forEach_trace:
  assumes "map_of (listeners s) e = Some cbs"
    and "distinct (live (drop i cbs))"
    and "\<forall>cb\<in>set (live (drop i cbs)). own_slot_only e cb \<and> placed e cb"
  shows "trace (forEach_from e datos i s) =
           trace s @ concat (map (\<lambda>cb. reaction e cb datos) (live (drop i cbs)))"
  using assms
proof (induction e datos i s arbitrary: cbs rule: forEach_from.induct)
  case (1 evento datos i s)
  note lst = \<open>map_of (listeners s) evento = Some cbs\<close>
  show ?case
  proof (cases "i < length cbs")
    case False
    with lst show ?thesis by (simp add: forEach_from.simps[of evento datos i s])
  next
    case True
    then have dr: "drop i cbs = cbs ! i # drop (Suc i) cbs" by (simp add: Cons_nth_drop_Suc)
    show ?thesis
    proof (cases "cbs ! i")
      case None
      have "trace (forEach_from evento datos (Suc i) s) =
           trace s @ concat (map (\<lambda>cb. reaction evento cb datos) (live (drop (Suc i) cbs)))"
        using "1.IH"(1)[OF lst True None lst] "1.prems"(2,3) dr None by simp
      with lst True None dr show ?thesis
        by (simp add: forEach_from.simps[of evento datos i s])
    next
      case (Some cb)
      let ?s' = "dispatch evento cb datos s"
      from "1.prems"(2,3) dr Some have
        fresh: "cb \<notin> set (live (drop (Suc i) cbs))" and
        dist: "distinct (live (drop (Suc i) cbs))" and
        own: "own_slot_only evento cb" and pl: "placed evento cb" and
        owns: "\<forall>c\<in>set (live (drop (Suc i) cbs)). own_slot_only evento c \<and> placed evento c"
        by simp_all
      from fresh have absent: "Some cb \<notin> set (drop (Suc i) cbs)" by (simp add: set_live)
      from dispatch_own_slot[OF own lst, of datos] obtain cbs' where
        lst': "map_of (listeners ?s') evento = Some cbs'" and
        alt: "cbs' = cbs \<or> cbs' = set_delete cb cbs" by blast
      have same: "drop (Suc i) cbs' = drop (Suc i) cbs"
        using alt absent by (auto simp: drop_set_delete set_delete_absent)
      have IH: "trace (forEach_from evento datos (Suc i) ?s') =
           trace ?s' @ concat (map (\<lambda>cb. reaction evento cb datos) (live (drop (Suc i) cbs)))"
        using "1.IH"(2)[OF lst True Some lst'] dist owns same by simp
      have step: "forEach_from evento datos i s = forEach_from evento datos (Suc i) ?s'"
        using lst True Some by (simp add: forEach_from.simps[of evento datos i s])
      have d1: "trace ?s' = trace s @ reaction evento cb datos"
        using lst pl by (intro dispatch_trace) simp_all
      show ?thesis
        unfolding step using IH d1 dr Some by simp
    qed
  qed
qed

lemma emit_trace:
  assumes "distinct (subscribers s e)"
    and "\<forall>cb\<in>set (subscribers s e). own_slot_only e cb \<and> placed e cb"
  shows "\<exists>s'. emit (JStr e) datos s = Inr s' \<and>
           new_events s s' =
             Emitted e datos # concat (map (\<lambda>cb. reaction e cb datos) (subscribers s e)) \<and>
           (\<forall>a\<in>set (subscribers s e). self_removing e a \<longrightarrow> a \<notin> set (subscribers s' e))"
proof -
  from assms(2) have own: "\<forall>cb\<in>set (subscribers s e). own_slot_only e cb" by blast
  from emit_deliveries[OF assms(1) own, of datos] obtain s' where
    em: "emit (JStr e) datos s = Inr s'" and
    g: "\<forall>a\<in>set (subscribers s e). self_removing e a \<longrightarrow> a \<notin> set (subscribers s' e)"
    by blast
  have "new_events s s' =
          Emitted e datos # concat (map (\<lambda>cb. reaction e cb datos) (subscribers s e))"
  proof (cases "map_of (listeners s) e")
    case None
    with em show ?thesis by (auto simp: emit_def Let_def subscribers_def new_events_def)
  next
    case (Some cbs)
    let ?s1 = "s\<lparr>trace := trace s @ [Emitted e datos]\<rparr>"
    have s': "s' = forEach_from e datos 0 ?s1" using Some em by (simp add: emit_def Let_def)
    have l1: "map_of (listeners ?s1) e = Some cbs" using Some by simp
    have sub: "subscribers s e = live cbs" using Some by (simp add: subscribers_def)
    from forEach_trace[OF l1, of 0 datos] assms sub
    have "trace s' = trace ?s1 @ concat (map (\<lambda>cb. reaction e cb datos) (live cbs))"
      by (simp add: s')
    then show ?thesis by (simp add: new_events_def sub)
  qed
  with em g show ?thesis by blast
qed

section \<open>C5: a subscriber that throws\<close>

text \<open>
  C5. \<^verbatim>\<open>emit\<close> with a string name always returns normally, and so does \<^verbatim>\<open>get\<close>, whatever
  the subscribers do. When the subscribers of the event are a Set (no reference twice),
  each under the event it was registered for, and none empties a slot other than its own,
  one \<^verbatim>\<open>emit\<close> leaves exactly this trace: the emission, then for every subscriber in
  registration order its delivery, the run of its function with the arguments and, if that
  function throws, the logged error. So when a subscriber \<open>a\<close> throws, its error is
  logged and what follows is the full reaction of every remaining subscriber. In
  particular a \<^verbatim>\<open>get\<close> that hits runs every subscriber of \<^verbatim>\<open>cache:hit\<close> with the key and the
  value, and returns the value.
\<close>

theorem failure_isolation:
  "(\<exists>s'. emit (JStr e) datos s = Inr s') \<and>
   (\<exists>v s'. cache_get clave s = Inr (v, s')) \<and>
   (distinct (subscribers s e) \<and>
    (\<forall>cb\<in>set (subscribers s e). own_slot_only e cb \<and> placed e cb) \<longrightarrow>
      (\<exists>s'. emit (JStr e) datos s = Inr s' \<and>
            new_events s s' =
              Emitted e datos # concat (map (\<lambda>cb. reaction e cb datos) (subscribers s e)) \<and>
            (\<forall>pre a post. subscribers s e = pre @ a # post \<and> throws (wrapped a) \<longrightarrow>
               new_events s s' =
                 Emitted e datos # concat (map (\<lambda>cb. reaction e cb datos) pre) @
                 [Delivered e a datos, Called (wrapped a) datos, LoggedError e] @
                 concat (map (\<lambda>cb. reaction e cb datos) post)))) \<and>
   (distinct (subscribers s ''cache:hit'') \<and>
    (\<forall>cb\<in>set (subscribers s ''cache:hit'').
        own_slot_only ''cache:hit'' cb \<and> placed ''cache:hit'' cb) \<and>
    live_entry s clave = Some entrada \<longrightarrow>
      (\<exists>s'. cache_get clave s = Inr (valor entrada, s') \<and>
            new_events s s' =
              Emitted ''cache:hit'' [clave, valor entrada] #
              concat (map (\<lambda>cb. reaction ''cache:hit'' cb [clave, valor entrada])
                        (subscribers s ''cache:hit''))))"
proof -
  have 1: "\<exists>s'. emit (JStr e) datos s = Inr s'" by (rule emit_total)
  have 2: "\<exists>v s'. cache_get clave s = Inr (v, s')" by (rule cache_get_total)
  have 3: "\<exists>s'. emit (JStr e) datos s = Inr s' \<and>
            new_events s s' =
              Emitted e datos # concat (map (\<lambda>cb. reaction e cb datos) (subscribers s e)) \<and>
            (\<forall>pre a post. subscribers s e = pre @ a # post \<and> throws (wrapped a) \<longrightarrow>
               new_events s s' =
                 Emitted e datos # concat (map (\<lambda>cb. reaction e cb datos) pre) @
                 [Delivered e a datos, Called (wrapped a) datos, LoggedError e] @
                 concat (map (\<lambda>cb. reaction e cb datos) post))"
    if h: "distinct (subscribers s e) \<and>
           (\<forall>cb\<in>set (subscribers s e). own_slot_only e cb \<and> placed e cb)"
  proof -
    from h emit_trace[of s e datos] obtain s' where
      em: "emit (JStr e) datos s = Inr s'" and
      tr: "new_events s s' =
             Emitted e datos # concat (map (\<lambda>cb. reaction e cb datos) (subscribers s e))"
      by blast
    have "new_events s s' =
                 Emitted e datos # concat (map (\<lambda>cb. reaction e cb datos) pre) @
                 [Delivered e a datos, Called (wrapped a) datos, LoggedError e] @
                 concat (map (\<lambda>cb. reaction e cb datos) post)"
      if "subscribers s e = pre @ a # post \<and> throws (wrapped a)" for pre a post
      using that tr by (simp add: reaction_def)
    with em tr show ?thesis by blast
  qed
  have 4: "\<exists>s'. cache_get clave s = Inr (valor entrada, s') \<and>
            new_events s s' =
              Emitted ''cache:hit'' [clave, valor entrada] #
              concat (map (\<lambda>cb. reaction ''cache:hit'' cb [clave, valor entrada])
                        (subscribers s ''cache:hit''))"
    if h: "distinct (subscribers s ''cache:hit'') \<and>
           (\<forall>cb\<in>set (subscribers s ''cache:hit'').
               own_slot_only ''cache:hit'' cb \<and> placed ''cache:hit'' cb) \<and>
           live_entry s clave = Some entrada"
  proof -
    let ?s0 = "s\<lparr>hits := hits s + 1\<rparr>"
    from h cache_get_hit[of s clave entrada] obtain s' where
      g: "cache_get clave s = Inr (valor entrada, s')" and
      e: "emit (JStr ''cache:hit'') [clave, valor entrada] ?s0 = Inr s'" by blast
    have sub: "subscribers ?s0 ''cache:hit'' = subscribers s ''cache:hit''"
      by (simp add: subscribers_def)
    from emit_trace[of ?s0 "''cache:hit''" "[clave, valor entrada]"] h e sub
    have "new_events ?s0 s' =
              Emitted ''cache:hit'' [clave, valor entrada] #
              concat (map (\<lambda>cb. reaction ''cache:hit'' cb [clave, valor entrada])
                        (subscribers s ''cache:hit''))" by auto
    then have "new_events s s' =
              Emitted ''cache:hit'' [clave, valor entrada] #
              concat (map (\<lambda>cb. reaction ''cache:hit'' cb [clave, valor entrada])
                        (subscribers s ''cache:hit''))" by (simp add: new_events_def)
    with g show ?thesis by blast
  qed
  from 1 2 3 4 show ?thesis by blast
qed

theorem failure_isolation_witness:
  "(\<exists>s'. cache_get (JStr ''k'')
      (run [BusOn (JStr ''cache:hit'') (JFun (UFun 1 Throws)),
            BusOn (JStr ''cache:hit'') (JFun (UFun 2 Returns)),
            CacheSet (JStr ''k'') (JNum 7) (JNum 0)] init) = Inr (JNum 7, s') \<and>
      new_events
        (run [BusOn (JStr ''cache:hit'') (JFun (UFun 1 Throws)),
              BusOn (JStr ''cache:hit'') (JFun (UFun 2 Returns)),
              CacheSet (JStr ''k'') (JNum 7) (JNum 0)] init) s' =
        [Emitted ''cache:hit'' [JStr ''k'', JNum 7],
         Delivered ''cache:hit'' (Plain (UFun 1 Throws)) [JStr ''k'', JNum 7],
         Called (UFun 1 Throws) [JStr ''k'', JNum 7],
         LoggedError ''cache:hit'',
         Delivered ''cache:hit'' (Plain (UFun 2 Returns)) [JStr ''k'', JNum 7],
         Called (UFun 2 Returns) [JStr ''k'', JNum 7]])"
proof -
  let ?s = "run [BusOn (JStr ''cache:hit'') (JFun (UFun 1 Throws)),
            BusOn (JStr ''cache:hit'') (JFun (UFun 2 Returns)),
            CacheSet (JStr ''k'') (JNum 7) (JNum 0)] init"
  have sub: "subscribers ?s ''cache:hit'' = [Plain (UFun 1 Throws), Plain (UFun 2 Returns)]"
    by code_simp
  have le: "live_entry ?s (JStr ''k'') = Some \<lparr>valor = JNum 7, expiracion = 0, timeoutId = None\<rparr>"
    by code_simp
  have h: "distinct (subscribers ?s ''cache:hit'') \<and>
    (\<forall>cb\<in>set (subscribers ?s ''cache:hit'').
        own_slot_only ''cache:hit'' cb \<and> placed ''cache:hit'' cb)"
    unfolding sub by simp
  from failure_isolation[where s = ?s and clave = "JStr ''k''"
      and entrada = "\<lparr>valor = JNum 7, expiracion = 0, timeoutId = None\<rparr>"] h le
  have "\<exists>s'. cache_get (JStr ''k'') ?s =
            Inr (valor \<lparr>valor = JNum 7, expiracion = 0, timeoutId = None\<rparr>, s') \<and>
            new_events ?s s' =
              Emitted ''cache:hit''
                [JStr ''k'', valor \<lparr>valor = JNum 7, expiracion = 0, timeoutId = None\<rparr>] #
              concat (map (\<lambda>cb. reaction ''cache:hit'' cb
                     [JStr ''k'', valor \<lparr>valor = JNum 7, expiracion = 0, timeoutId = None\<rparr>])
                (subscribers ?s ''cache:hit''))"
    by blast
  then show ?thesis unfolding sub by (simp add: reaction_def)
qed

section \<open>C9: a subscriber that removes itself while the event is delivered\<close>

lemma count_list_filter_self: "P x \<Longrightarrow> count_list (filter P xs) x = count_list xs x"
  by (induction xs) auto

lemma count_list_map_delivered:
  "count_list (map (\<lambda>cb. Delivered e cb datos) xs) (Delivered e b datos) = count_list xs b"
  by (induction xs) auto

lemma count_list_distinct: "distinct xs \<Longrightarrow> x \<in> set xs \<Longrightarrow> count_list xs x = 1"
  by (induction xs) auto

text \<open>
  C9. The subscribers of an event are a Set, each under the event it was registered for,
  with \<open>a\<close> registered before \<open>b\<close>, and none empties a slot other than its own. If \<open>a\<close>
  removes its own subscription when it runs (the wrapper of \<^verbatim>\<open>once\<close> around a function
  that returns, or a function that calls \<^verbatim>\<open>off\<close> on itself), then one \<^verbatim>\<open>emit\<close> returns
  normally and leaves \<open>a\<close> unsubscribed, and its trace is the emission followed by the
  reaction of every subscriber in registration order: \<open>b\<close> is delivered to exactly once,
  and at that delivery its function runs with the arguments.
\<close>

theorem self_removal_keeps_siblings:
  assumes "subscribers s e = pre @ a # mid @ b # post"
    and "distinct (subscribers s e)"
    and "\<forall>cb\<in>set (subscribers s e). own_slot_only e cb \<and> placed e cb"
    and "self_removing e a"
  shows "\<exists>s'. emit (JStr e) datos s = Inr s' \<and>
              a \<notin> set (subscribers s' e) \<and>
              count_list (new_events s s') (Delivered e b datos) = 1 \<and>
              new_events s s' =
                Emitted e datos # concat (map (\<lambda>cb. reaction e cb datos) pre) @
                reaction e a datos @ concat (map (\<lambda>cb. reaction e cb datos) mid) @
                Delivered e b datos # Called (wrapped b) datos #
                (if throws (wrapped b) then [LoggedError e] else []) @
                concat (map (\<lambda>cb. reaction e cb datos) post) \<and>
              deliveries (new_events s s') = map (\<lambda>cb. Delivered e cb datos) (subscribers s e)"
proof -
  from assms(3) have own: "\<forall>cb\<in>set (subscribers s e). own_slot_only e cb" by blast
  from emit_trace[OF assms(2,3), of datos] obtain s' where
    em: "emit (JStr e) datos s = Inr s'" and
    tr: "new_events s s' =
           Emitted e datos # concat (map (\<lambda>cb. reaction e cb datos) (subscribers s e))" and
    g: "\<forall>a\<in>set (subscribers s e). self_removing e a \<longrightarrow> a \<notin> set (subscribers s' e)"
    by blast
  from emit_deliveries[OF assms(2) own, of datos] em have
    d: "deliveries (new_events s s') = map (\<lambda>cb. Delivered e cb datos) (subscribers s e)"
    by auto
  have a: "a \<in> set (subscribers s e)" and b: "b \<in> set (subscribers s e)"
    by (simp_all add: assms(1))
  have "count_list (new_events s s') (Delivered e b datos) =
        count_list (deliveries (new_events s s')) (Delivered e b datos)"
    by (simp add: deliveries_def count_list_filter_self)
  also have "\<dots> = count_list (subscribers s e) b"
    by (simp add: d count_list_map_delivered)
  also have "\<dots> = 1" using assms(2) b by (rule count_list_distinct)
  finally have c: "count_list (new_events s s') (Delivered e b datos) = 1" .
  have t: "new_events s s' =
                Emitted e datos # concat (map (\<lambda>cb. reaction e cb datos) pre) @
                reaction e a datos @ concat (map (\<lambda>cb. reaction e cb datos) mid) @
                Delivered e b datos # Called (wrapped b) datos #
                (if throws (wrapped b) then [LoggedError e] else []) @
                concat (map (\<lambda>cb. reaction e cb datos) post)"
    unfolding tr assms(1) by (simp add: reaction_def)
  from em g a assms(4) c t d show ?thesis by blast
qed

theorem self_removal_keeps_siblings_witness:
  "subscribers (run [BusOnce (JStr ''e'') (JFun (UFun 1 Returns)),
                     BusOn (JStr ''e'') (JFun (UFun 2 Returns))] init) ''e'' =
     [] @ OnceWrapper 0 ''e'' (UFun 1 Returns) # [] @ Plain (UFun 2 Returns) # [] \<and>
   self_removing ''e'' (OnceWrapper 0 ''e'' (UFun 1 Returns)) \<and>
   (\<exists>s'. emit (JStr ''e'') [JNum 5]
            (run [BusOnce (JStr ''e'') (JFun (UFun 1 Returns)),
                  BusOn (JStr ''e'') (JFun (UFun 2 Returns))] init) = Inr s' \<and>
      OnceWrapper 0 ''e'' (UFun 1 Returns) \<notin> set (subscribers s' ''e'') \<and>
      new_events
            (run [BusOnce (JStr ''e'') (JFun (UFun 1 Returns)),
                  BusOn (JStr ''e'') (JFun (UFun 2 Returns))] init) s' =
        [Emitted ''e'' [JNum 5],
         Delivered ''e'' (OnceWrapper 0 ''e'' (UFun 1 Returns)) [JNum 5],
         Called (UFun 1 Returns) [JNum 5],
         Delivered ''e'' (Plain (UFun 2 Returns)) [JNum 5],
         Called (UFun 2 Returns) [JNum 5]])"
proof -
  let ?s = "run [BusOnce (JStr ''e'') (JFun (UFun 1 Returns)),
                     BusOn (JStr ''e'') (JFun (UFun 2 Returns))] init"
  have sub: "subscribers ?s ''e'' =
     [] @ OnceWrapper 0 ''e'' (UFun 1 Returns) # [] @ Plain (UFun 2 Returns) # []"
    by code_simp
  have d: "distinct (subscribers ?s ''e'')" unfolding sub by simp
  have o: "\<forall>cb\<in>set (subscribers ?s ''e''). own_slot_only ''e'' cb \<and> placed ''e'' cb"
    unfolding sub by simp
  have sr: "self_removing ''e'' (OnceWrapper 0 ''e'' (UFun 1 Returns))" by simp
  from self_removal_keeps_siblings[OF sub d o sr, of "[JNum 5]"] obtain s' where
    "emit (JStr ''e'') [JNum 5] ?s = Inr s'"
    "OnceWrapper 0 ''e'' (UFun 1 Returns) \<notin> set (subscribers s' ''e'')"
    "new_events ?s s' =
       Emitted ''e'' [JNum 5] # concat (map (\<lambda>cb. reaction ''e'' cb [JNum 5]) []) @
       reaction ''e'' (OnceWrapper 0 ''e'' (UFun 1 Returns)) [JNum 5] @
       concat (map (\<lambda>cb. reaction ''e'' cb [JNum 5]) []) @
       Delivered ''e'' (Plain (UFun 2 Returns)) [JNum 5] #
       Called (wrapped (Plain (UFun 2 Returns))) [JNum 5] #
       (if throws (wrapped (Plain (UFun 2 Returns))) then [LoggedError ''e''] else []) @
       concat (map (\<lambda>cb. reaction ''e'' cb [JNum 5]) [])"
    by blast
  then have "emit (JStr ''e'') [JNum 5] ?s = Inr s' \<and>
      OnceWrapper 0 ''e'' (UFun 1 Returns) \<notin> set (subscribers s' ''e'') \<and>
      new_events ?s s' =
        [Emitted ''e'' [JNum 5],
         Delivered ''e'' (OnceWrapper 0 ''e'' (UFun 1 Returns)) [JNum 5],
         Called (UFun 1 Returns) [JNum 5],
         Delivered ''e'' (Plain (UFun 2 Returns)) [JNum 5],
         Called (UFun 2 Returns) [JNum 5]]"
    by (simp add: reaction_def)
  with sub sr show ?thesis by blast
qed

section \<open>C3: the remover returned by \<^verbatim>\<open>on\<close>\<close>

lemma on_ok:
  "on (JStr e) (JFun f) s = Inr (r, s1) \<longleftrightarrow>
     trim e \<noteq> [] \<and> r = Remover e (Plain f) \<and> s1 = snd (subscribe e (Plain f) s)"
  by (auto simp: on_def validarTipo_def subscribe_def Let_def)

lemma listeners_subscribe:
  "map_of (listeners (snd (subscribe e cb s))) ev =
     (if ev = e
      then Some (set_add cb (case map_of (listeners s) e of None \<Rightarrow> [] | Some c \<Rightarrow> c))
      else map_of (listeners s) ev)"
  by (auto simp: subscribe_def Let_def alist_simps split: option.splits)

lemma subscribers_subscribe:
  "subscribers (snd (subscribe e cb s)) ev =
     (if ev = e
      then (if cb \<in> set (subscribers s e) then subscribers s e else subscribers s e @ [cb])
      else subscribers s ev)"
  by (auto simp: subscribers_def listeners_subscribe live_set_add split: option.splits)



text \<open>
  C3 at its failing input: a subscription is made, the bus is cleared, the remover is
  called. Line 30 reads \<^verbatim>\<open>listeners.get(evento).delete\<close> with no test, unlike \<^verbatim>\<open>off\<close>
  (line 36), and the call raises instead of doing nothing.
\<close>

theorem remover_after_clear_raises:
  "on (JStr ''e'') (JFun (UFun 0 Returns)) init =
     Inr (Remover ''e'' (Plain (UFun 0 Returns)),
          step (BusOn (JStr ''e'') (JFun (UFun 0 Returns))) init) \<and>
   run_remover (Remover ''e'' (Plain (UFun 0 Returns)))
     (bus_clear (step (BusOn (JStr ''e'') (JFun (UFun 0 Returns))) init)) = Inl TypeError \<and>
   off (JStr ''e'') (JFun (UFun 0 Returns))
     (bus_clear (step (BusOn (JStr ''e'') (JFun (UFun 0 Returns))) init)) =
     bus_clear (step (BusOn (JStr ''e'') (JFun (UFun 0 Returns))) init)"
  by code_simp

section \<open>C4: the same callback subscribed twice\<close>





section \<open>C6: \<^verbatim>\<open>once\<close>\<close>

text \<open>
  C6 at its failing input: \<^verbatim>\<open>once\<close> with a callback that throws, then two emissions.
  The wrapper calls the callback before its remover (lines 64-65); the throw skips the
  remover, \<^verbatim>\<open>emit\<close> catches the error, and the wrapper stays registered. The callback
  runs at both emissions, the second time with the second emission's argument.
\<close>

theorem once_throwing_callback_runs_twice:
  "new_events init
     (run [BusOnce (JStr ''e'') (JFun (UFun 0 Throws)),
           BusEmit (JStr ''e'') [JNum 1], BusEmit (JStr ''e'') [JNum 2]] init) =
     [Emitted ''e'' [JNum 1],
      Delivered ''e'' (OnceWrapper 0 ''e'' (UFun 0 Throws)) [JNum 1],
      Called (UFun 0 Throws) [JNum 1], LoggedError ''e'',
      Emitted ''e'' [JNum 2],
      Delivered ''e'' (OnceWrapper 0 ''e'' (UFun 0 Throws)) [JNum 2],
      Called (UFun 0 Throws) [JNum 2], LoggedError ''e''] \<and>
   subscribers
     (run [BusOnce (JStr ''e'') (JFun (UFun 0 Throws)),
           BusEmit (JStr ''e'') [JNum 1], BusEmit (JStr ''e'') [JNum 2]] init) ''e'' =
     [OnceWrapper 0 ''e'' (UFun 0 Throws)]"
  by code_simp

section \<open>Reachable registries, and \<^verbatim>\<open>once\<close> on a callback that returns\<close>

lemma listeners_limpiar_fold [simp]:
  "subscribers (limpiarEntrada k s) ev = subscribers s ev"
  "subscribers (fold limpiarEntrada ks s) ev = subscribers s ev"
  by (simp_all add: subscribers_def)

lemma listeners_cache_set:
  assumes "cache_set clave v ttl s = Inr s'"
  shows "listeners s' = listeners s"
proof -
  from assms obtain k where k: "clave = JStr k" "trim k \<noteq> []"
    by (auto simp: cache_set_def split: jsval.splits if_splits)
  show ?thesis
  proof (cases "0 < normal_ttl ttl")
    case True
    with assms k show ?thesis by (auto simp: cache_set_timed)
  next
    case False
    with assms k show ?thesis by (auto simp: cache_set_untimed)
  qed
qed

lemma shrink_get:
  assumes "cache_get clave s = Inr (v, s')"
  shows "\<exists>p. subscribers s' ev = filter p (subscribers s ev)"
proof (cases "live_entry s clave")
  case None
  let ?s0 = "(case clave of JStr k \<Rightarrow> limpiarEntrada k s | _ \<Rightarrow> s)\<lparr>misses := misses s + 1\<rparr>"
  from cache_get_miss[OF None] assms have "emit (JStr ''cache:miss'') [clave] ?s0 = Inr s'"
    by auto
  from shrink_emit[OF this, of ev] show ?thesis
    by (simp add: subscribers_def split: jsval.splits)
next
  case (Some en)
  from cache_get_hit[OF Some] assms
  have "emit (JStr ''cache:hit'') [clave, valor en] (s\<lparr>hits := hits s + 1\<rparr>) = Inr s'" by auto
  from shrink_emit[OF this, of ev] show ?thesis by (simp add: subscribers_def)
qed

text \<open>
  In every state an execution reaches, the subscribers of an event are a Set: no
  reference is registered twice.
\<close>

lemma distinct_step:
  assumes "\<forall>ev. distinct (subscribers s ev)"
  shows "distinct (subscribers (step op s) ev)"
proof -
  have keep: "distinct (subscribers s' ev)"
    if "\<exists>p. subscribers s' ev = filter p (subscribers s ev)" for s'
    using that assms by auto
  show ?thesis
  proof (cases op)
    case (CacheSet k v ttl)
    then show ?thesis using assms
      by (auto simp: subscribers_def split: sum.splits dest!: listeners_cache_set)
  next
    case (CacheGet k)
    then show ?thesis using assms keep shrink_get[of k s _ _ ev]
      by (auto split: sum.splits)
  next
    case (CacheDel k)
    then show ?thesis using assms by (auto simp: cache_del_def split: jsval.splits)
  next
    case CacheClear
    then show ?thesis using assms by (simp add: cache_clear_def Let_def subscribers_def)
  next
    case (TimerFire tid)
    then show ?thesis using assms
      by (auto simp: timer_fire_def subscribers_def split: option.splits)
  next
    case (Tick d)
    then show ?thesis using assms by (simp add: tick_def subscribers_def)
  next
    case (BusOn e cb)
    show ?thesis
    proof (cases "on e cb s")
      case (Inl err)
      with BusOn assms show ?thesis by simp
    next
      case (Inr p)
      obtain r s1 where p: "p = (r, s1)" by (cases p)
      from Inr p obtain e' f where "e = JStr e'" "cb = JFun f"
        by (auto simp: on_def validarTipo_def split: jsval.splits if_splits)
      with Inr p have "s1 = snd (subscribe e' (Plain f) s)" by (simp add: on_ok)
      with BusOn Inr p assms show ?thesis by (simp add: subscribers_subscribe)
    qed
  next
    case (BusOnce e cb)
    show ?thesis
    proof (cases "once e cb s")
      case (Inl err)
      with BusOnce assms show ?thesis by simp
    next
      case (Inr s1)
      then obtain e' f where "e = JStr e'" "cb = JFun f"
        by (auto simp: once_def validarTipo_def split: jsval.splits if_splits)
      with Inr have "s1 = snd (subscribe e' (OnceWrapper (next_fn s) e' f)
                          (s\<lparr>next_fn := Suc (next_fn s)\<rparr>))"
        by (auto simp: once_def validarTipo_def split: if_splits)
      moreover have "subscribers (s\<lparr>next_fn := Suc (next_fn s)\<rparr>) x = subscribers s x" for x
        by (simp add: subscribers_def)
      ultimately show ?thesis using BusOnce Inr assms by (simp add: subscribers_subscribe)
    qed
  next
    case (BusOff e cb)
    then show ?thesis using keep shrink_off[of e cb s ev] by simp
  next
    case (BusEmit e datos)
    then show ?thesis using assms keep shrink_emit[of e datos s _ ev]
      by (auto split: sum.splits)
  next
    case BusClear
    then show ?thesis by (simp add: bus_clear_def subscribers_def)
  next
    case (RunRemover r)
    then show ?thesis using assms keep shrink_remover[of r s _ ev]
      by (auto split: sum.splits)
  qed
qed

lemma distinct_reachable: "distinct (subscribers (run ops init) ev)"
proof -
  have "\<forall>ev. distinct (subscribers (fold step ops s) ev)"
    if "\<forall>ev. distinct (subscribers s ev)" for s
    using that by (induction ops arbitrary: s) (simp_all add: distinct_step)
  moreover have "\<forall>ev. distinct (subscribers init ev)" by (simp add: subscribers_def init_def)
  ultimately show ?thesis by (simp add: run_def)
qed

text \<open>
  In every state an execution reaches, a wrapper of \<^verbatim>\<open>once\<close> is subscribed only to
  the event it was made for.
\<close>

lemma step_subscribers:
  "(\<exists>p. subscribers (step op s) ev = filter p (subscribers s ev)) \<or>
   (\<exists>cb. subscribers (step op s) ev = subscribers s ev @ [cb] \<and> placed ev cb)"
proof -
  have same: "\<exists>p. subscribers s' ev = filter p (subscribers s ev)"
    if "listeners s' = listeners s" for s'
    using that filter_id_ex[of "subscribers s ev"] by (simp add: subscribers_def)
  show ?thesis
  proof (cases op)
    case (CacheSet k v ttl)
    show ?thesis
    proof (cases "cache_set k v ttl s")
      case (Inl err)
      with CacheSet same[of s] show ?thesis by simp
    next
      case (Inr s1)
      with CacheSet same[OF listeners_cache_set[OF Inr]] show ?thesis by simp
    qed
  next
    case (CacheGet k)
    show ?thesis
    proof (cases "cache_get k s")
      case (Inl err)
      with CacheGet same[of s] show ?thesis by simp
    next
      case (Inr p)
      obtain v s1 where p: "p = (v, s1)" by (cases p)
      with CacheGet Inr shrink_get[of k s v s1 ev] show ?thesis by simp
    qed
  next
    case (CacheDel k)
    have "listeners (snd (cache_del k s)) = listeners s"
      by (auto simp: cache_del_def split: jsval.splits)
    with CacheDel same show ?thesis by simp
  next
    case CacheClear
    have "listeners (cache_clear s) = listeners s" by (simp add: cache_clear_def Let_def)
    with CacheClear same show ?thesis by simp
  next
    case (TimerFire tid)
    have "listeners (timer_fire tid s) = listeners s"
      by (auto simp: timer_fire_def split: option.splits)
    with TimerFire same show ?thesis by simp
  next
    case (Tick d)
    have "listeners (tick d s) = listeners s" by (simp add: tick_def)
    with Tick same show ?thesis by simp
  next
    case (BusOn e cb)
    show ?thesis
    proof (cases "on e cb s")
      case (Inl err)
      with BusOn same[of s] show ?thesis by simp
    next
      case (Inr p)
      obtain r s1 where p: "p = (r, s1)" by (cases p)
      from Inr p obtain e' f where "e = JStr e'" "cb = JFun f"
        by (auto simp: on_def validarTipo_def split: jsval.splits if_splits)
      with Inr p have "s1 = snd (subscribe e' (Plain f) s)" by (simp add: on_ok)
      with BusOn Inr p filter_id_ex[of "subscribers s ev"] show ?thesis
        by (auto simp: subscribers_subscribe)
    qed
  next
    case (BusOnce e cb)
    show ?thesis
    proof (cases "once e cb s")
      case (Inl err)
      with BusOnce same[of s] show ?thesis by simp
    next
      case (Inr s1)
      then obtain e' f where "e = JStr e'" "cb = JFun f"
        by (auto simp: once_def validarTipo_def split: jsval.splits if_splits)
      with Inr have "s1 = snd (subscribe e' (OnceWrapper (next_fn s) e' f)
                          (s\<lparr>next_fn := Suc (next_fn s)\<rparr>))"
        by (auto simp: once_def validarTipo_def split: if_splits)
      moreover have "subscribers (s\<lparr>next_fn := Suc (next_fn s)\<rparr>) x = subscribers s x" for x
        by (simp add: subscribers_def)
      ultimately show ?thesis using BusOnce Inr filter_id_ex[of "subscribers s ev"]
        by (auto simp: subscribers_subscribe)
    qed
  next
    case (BusOff e cb)
    with shrink_off[of e cb s ev] show ?thesis by simp
  next
    case (BusEmit e datos)
    show ?thesis
    proof (cases "emit e datos s")
      case (Inl err)
      with BusEmit same[of s] show ?thesis by simp
    next
      case (Inr s1)
      with BusEmit shrink_emit[OF Inr, of ev] show ?thesis by simp
    qed
  next
    case BusClear
    have "\<exists>p. subscribers (bus_clear s) ev = filter p (subscribers s ev)"
      by (rule exI[of _ "\<lambda>_. False"]) (simp add: bus_clear_def subscribers_def)
    with BusClear show ?thesis by simp
  next
    case (RunRemover r)
    show ?thesis
    proof (cases "run_remover r s")
      case (Inl err)
      with RunRemover same[of s] show ?thesis by simp
    next
      case (Inr s1)
      with RunRemover shrink_remover[OF Inr, of ev] show ?thesis by simp
    qed
  qed
qed

lemma placed_step:
  assumes "\<forall>cb\<in>set (subscribers s ev). placed ev cb"
  shows "\<forall>cb\<in>set (subscribers (step op s) ev). placed ev cb"
  using step_subscribers[of op s ev] assms by auto

lemma placed_reachable: "\<forall>cb\<in>set (subscribers (run ops init) ev). placed ev cb"
proof -
  have "\<forall>cb\<in>set (subscribers (fold step ops s) ev). placed ev cb"
    if "\<forall>cb\<in>set (subscribers s ev). placed ev cb" for s
    using that
  proof (induction ops arbitrary: s)
    case Nil
    then show ?case by simp
  next
    case (Cons a ops)
    from Cons.IH[OF placed_step[OF Cons.prems, of a]] show ?case by simp
  qed
  moreover have "\<forall>cb\<in>set (subscribers init ev). placed ev cb"
    by (simp add: subscribers_def init_def)
  ultimately show ?thesis by (simp add: run_def)
qed

text \<open>
  For a callback that returns, \<^verbatim>\<open>once\<close> does what its name says: the first emission
  delivers to the wrapper once and unsubscribes it, and a second emission does not reach
  it.
\<close>

lemma once_returning_single_delivery:
  assumes o: "once (JStr e) (JFun (UFun n b)) s = Inr s1"
    and nt: "b \<noteq> Throws" and nu: "b \<noteq> Unsubscribes e"
    and d: "distinct (subscribers s e)"
    and own: "\<forall>cb\<in>set (subscribers s e). own_slot_only e cb"
    and fresh: "OnceWrapper (next_fn s) e (UFun n b) \<notin> set (subscribers s e)"
  shows "\<exists>s2 s3. emit (JStr e) x s1 = Inr s2 \<and> emit (JStr e) y s2 = Inr s3 \<and>
           count_list (new_events s1 s2) (Delivered e (OnceWrapper (next_fn s) e (UFun n b)) x) = 1 \<and>
           OnceWrapper (next_fn s) e (UFun n b) \<notin> set (subscribers s2 e) \<and>
           (\<forall>z. Delivered e (OnceWrapper (next_fn s) e (UFun n b)) z \<notin> set (new_events s2 s3))"
proof -
  let ?w = "OnceWrapper (next_fn s) e (UFun n b)"
  from o have s1: "s1 = snd (subscribe e ?w (s\<lparr>next_fn := Suc (next_fn s)\<rparr>))"
    by (auto simp: once_def validarTipo_def split: if_splits)
  have sub0: "subscribers (s\<lparr>next_fn := Suc (next_fn s)\<rparr>) ev = subscribers s ev" for ev
    by (simp add: subscribers_def)
  have sub1: "subscribers s1 e = subscribers s e @ [?w]"
    using fresh by (simp add: s1 subscribers_subscribe sub0)
  have d1: "distinct (subscribers s1 e)" using d fresh by (simp add: sub1)
  have own1: "\<forall>cb\<in>set (subscribers s1 e). own_slot_only e cb" using own nu by (simp add: sub1)
  have sr: "self_removing e ?w" using nt by simp
  from emit_deliveries[OF d1 own1, of x] obtain s2 where
    e1: "emit (JStr e) x s1 = Inr s2" and
    dl1: "deliveries (new_events s1 s2) = map (\<lambda>cb. Delivered e cb x) (subscribers s1 e)" and
    g: "\<forall>a\<in>set (subscribers s1 e). self_removing e a \<longrightarrow> a \<notin> set (subscribers s2 e)"
    by blast
  from g sr have gone: "?w \<notin> set (subscribers s2 e)" by (simp add: sub1)
  from shrink_emit[OF e1, of e] obtain p where
    p: "subscribers s2 e = filter p (subscribers s1 e)" by blast
  have d2: "distinct (subscribers s2 e)" using d1 by (simp add: p)
  have own2: "\<forall>cb\<in>set (subscribers s2 e). own_slot_only e cb" using own1 by (simp add: p)
  from emit_deliveries[OF d2 own2, of y] obtain s3 where
    e2: "emit (JStr e) y s2 = Inr s3" and
    dl2: "deliveries (new_events s2 s3) = map (\<lambda>cb. Delivered e cb y) (subscribers s2 e)"
    by blast
  have c1: "count_list (new_events s1 s2) (Delivered e ?w x) = 1"
  proof -
    have "count_list (new_events s1 s2) (Delivered e ?w x) =
          count_list (deliveries (new_events s1 s2)) (Delivered e ?w x)"
      by (simp add: deliveries_def count_list_filter_self)
    also have "\<dots> = count_list (subscribers s1 e) ?w"
      by (simp add: dl1 count_list_map_delivered)
    also have "\<dots> = 1" using d1 by (intro count_list_distinct) (simp_all add: sub1)
    finally show ?thesis .
  qed
  have c2: "Delivered e ?w z \<notin> set (new_events s2 s3)" for z
  proof
    assume "Delivered e ?w z \<in> set (new_events s2 s3)"
    then have "Delivered e ?w z \<in> set (deliveries (new_events s2 s3))"
      by (simp add: deliveries_def)
    with dl2 gone show False by auto
  qed
  from e1 e2 c1 gone c2 show ?thesis by blast
qed

end
